theory Spec2Isabelle
  imports Complex_Main "HOL-Library.Sublist" "HOL-Library.List_Lexorder" "HOL-Library.Char_ord"
begin

text \<open>
  FilePurger scans the drives of a Windows host for files of configured extension
  categories, decides by the age of each file whether it is to be removed, and moves
  the files that qualify into a quarantine directory.  The repository holds two scripts:
  \<open>auto_purge.py\<close>, driven by \<open>config.json\<close> (functions \<open>load_config_or_exit\<close>, \<open>run_scan\<close>,
  \<open>build_quarantine_dest\<close>, \<open>clear_directory\<close>), and \<open>safe_purge.py\<close>, with constants and
  command-line arguments (functions \<open>is_excluded\<close>, \<open>purge_files\<close>).  Both are modelled
  here as functions on an explicit state; what the operating system answers (directory
  listings, modification times, the outcome of a move or a deletion, \<open>abspath\<close>, the
  clock, SHA-256) is input.
\<close>

section \<open>Python strings and exceptions\<close>

text \<open>
  A Python \<open>str\<close> is modelled as a \<open>string\<close> (a list of 8-bit characters); only the
  ASCII letters have a lower-case form here.  An exception that a function may raise is a
  value of \<open>py_error\<close>, returned as \<open>Inl\<close>.
\<close>

datatype py_error = ValueError | IndexError | KeyError | FileNotFoundError

definition sep :: char where
  "sep = CHR 0x5C"

definition altsep :: char where
  "altsep = CHR ''/''"

definition colon :: char where
  "colon = CHR '':''"

definition extsep :: char where
  "extsep = CHR ''.''"

definition curdir :: string where
  "curdir = ''.''"

definition pardir :: string where
  "pardir = ''..''"

text \<open>\<open>str.lower\<close> on one character: \<open>A\<close>..\<open>Z\<close> move up by 32.\<close>

definition lower_chr :: "char \<Rightarrow> char" where
  "lower_chr c =
     (let n = (of_char c :: nat) in if 65 \<le> n \<and> n \<le> 90 then char_of (n + 32) else c)"

definition lower :: "string \<Rightarrow> string" where
  "lower s = map lower_chr s"

text \<open>\<open>s.replace(a, b)\<close> for single characters \<open>a\<close>, \<open>b\<close>.\<close>

definition replace_chr :: "char \<Rightarrow> char \<Rightarrow> string \<Rightarrow> string" where
  "replace_chr a b s = map (\<lambda>c. if c = a then b else c) s"

text \<open>\<open>s.split(c)\<close>: never empty, \<open>''''.split(c) = ['''']\<close>.\<close>

fun split_chr :: "char \<Rightarrow> string \<Rightarrow> string list" where
  "split_chr c [] = [[]]"
| "split_chr c (x # xs) =
     (if x = c then [] # split_chr c xs
      else (case split_chr c xs of
              [] \<Rightarrow> [[x]]
            | w # ws \<Rightarrow> (x # w) # ws))"

text \<open>\<open>c.join(xs)\<close>.\<close>

fun join_chr :: "char \<Rightarrow> string list \<Rightarrow> string" where
  "join_chr c [] = []"
| "join_chr c [x] = x"
| "join_chr c (x # y # ys) = x @ c # join_chr c (y # ys)"

text \<open>\<open>s.rfind(c)\<close>: the last index of \<open>c\<close>, or \<open>-1\<close>.\<close>

definition rfind :: "char \<Rightarrow> string \<Rightarrow> int" where
  "rfind c s =
     (case filter (\<lambda>i. s ! i = c) (rev [0..<length s]) of
        [] \<Rightarrow> - 1
      | i # _ \<Rightarrow> int i)"

section \<open>The path functions of \<open>os.path\<close> on Windows\<close>

text \<open>
  \<open>os.path.splitdrive\<close>.  The drive-letter form \<open>X:\<close> and drive-less paths are
  modelled; a UNC or device prefix (two leading separators) is not: both scripts walk
  the roots \<open>X:\\\<close> only.
\<close>

definition splitdrive :: "string \<Rightarrow> string \<times> string" where
  "splitdrive p =
     (if 2 \<le> length p \<and> take 1 (drop 1 (replace_chr altsep sep p)) = [colon]
      then (take 2 p, drop 2 p)
      else ([], p))"

definition seps :: "char set" where
  "seps = {sep, altsep}"

text \<open>\<open>os.path.join(path, p)\<close> with one extra argument.\<close>

definition path_join :: "string \<Rightarrow> string \<Rightarrow> string" where
  "path_join path p =
     (let (result_drive, result_path) = splitdrive path;
          (p_drive, p_path) = splitdrive p;
          (result_drive, result_path) =
            (if p_path \<noteq> [] \<and> hd p_path \<in> seps then
               ((if p_drive \<noteq> [] \<or> result_drive = [] then p_drive else result_drive), p_path)
             else if p_drive \<noteq> [] \<and> p_drive \<noteq> result_drive
                     \<and> lower p_drive \<noteq> lower result_drive then
               (p_drive, p_path)
             else
               ((if p_drive \<noteq> [] \<and> p_drive \<noteq> result_drive then p_drive else result_drive),
                (if result_path \<noteq> [] \<and> last result_path \<notin> seps
                 then result_path @ [sep] else result_path) @ p_path))
      in if result_path \<noteq> [] \<and> hd result_path \<notin> seps
            \<and> result_drive \<noteq> [] \<and> last result_drive \<noteq> colon
         then result_drive @ [sep] @ result_path
         else result_drive @ result_path)"

text \<open>
  \<open>os.path.splitext\<close>: the extension starts at the last dot, provided that dot comes
  after the last separator and some character between the two is not a dot.
\<close>

definition splitext :: "string \<Rightarrow> string \<times> string" where
  "splitext p =
     (let sepIndex = max (rfind sep p) (rfind altsep p);
          dotIndex = rfind extsep p
      in if dotIndex > sepIndex
            \<and> list_ex (\<lambda>k. p ! k \<noteq> extsep) [nat (sepIndex + 1)..<nat dotIndex]
         then (take (nat dotIndex) p, drop (nat dotIndex) p)
         else (p, []))"

text \<open>
  The loop of \<open>os.path.commonpath\<close> over \<open>enumerate(s1)\<close>: the index of the first
  component where \<open>s1\<close> and \<open>s2\<close> differ, \<open>len(s1)\<close> when there is none, and
  \<open>None\<close> where \<open>s2[i]\<close> would be out of range.
\<close>

fun common_len :: "'a list \<Rightarrow> 'a list \<Rightarrow> nat option" where
  "common_len [] s2 = Some 0"
| "common_len (c # s1) [] = None"
| "common_len (c # s1) (d # s2) =
     (if c \<noteq> d then Some 0 else map_option Suc (common_len s1 s2))"

definition components :: "string \<Rightarrow> string list" where
  "components path = filter (\<lambda>c. c \<noteq> [] \<and> c \<noteq> curdir) (split_chr sep path)"

text \<open>\<open>os.path.commonpath([p1, p2])\<close>.\<close>

definition commonpath :: "string \<Rightarrow> string \<Rightarrow> py_error + string" where
  "commonpath p1 p2 =
     (let (d1, r1) = splitdrive (lower (replace_chr altsep sep p1));
          (d2, r2) = splitdrive (lower (replace_chr altsep sep p2));
          isabs1 = (take 1 r1 = [sep]);
          isabs2 = (take 1 r2 = [sep])
      in if isabs1 \<noteq> isabs2 then Inl ValueError
         else if d1 \<noteq> d2 then Inl ValueError
         else
           (let (drive, path) = splitdrive (replace_chr altsep sep p1);
                common = components path;
                s1 = min (components r1) (components r2);
                s2 = max (components r1) (components r2);
                pre = (if isabs1 then drive @ [sep] else drive)
            in case common_len s1 s2 of
                 None \<Rightarrow> Inl IndexError
               | Some i \<Rightarrow> Inr (pre @ join_chr sep (take i common))))"

section \<open>Directory exclusion\<close>

subsection \<open>\<open>auto_purge.py\<close>\<close>

text \<open>
  \<open>os.path.abspath\<close> asks the operating system, so it is a parameter \<open>abspath\<close> of the
  functions that call it.
\<close>

definition same_drive :: "string \<Rightarrow> string \<Rightarrow> bool" where
  "same_drive p1 p2 = (lower (fst (splitdrive p1)) = lower (fst (splitdrive p2)))"

text \<open>Every exception inside \<open>is_under\<close> is caught and gives \<open>False\<close>.\<close>

definition is_under :: "(string \<Rightarrow> string) \<Rightarrow> string \<Rightarrow> string \<Rightarrow> bool" where
  "is_under abspath path pfx =
     (if \<not> same_drive path pfx then False
      else (case commonpath (abspath path) (abspath pfx) of
              Inl e \<Rightarrow> False
            | Inr cp \<Rightarrow> cp = abspath pfx))"

fun should_exclude_dir :: "(string \<Rightarrow> string) \<Rightarrow> string \<Rightarrow> string list \<Rightarrow> bool" where
  "should_exclude_dir abspath rootdir [] = False"
| "should_exclude_dir abspath rootdir (ex # exclude_dirs) =
     (if is_under abspath rootdir ex then True
      else should_exclude_dir abspath rootdir exclude_dirs)"

subsection \<open>\<open>safe_purge.py\<close>\<close>

definition SAFE_EXCLUDE_DIRS :: "string list" where
  "SAFE_EXCLUDE_DIRS =
     [''C:'' @ [sep] @ ''Windows'',
      ''C:'' @ [sep] @ ''Program Files'',
      ''C:'' @ [sep] @ ''Program Files (x86)'',
      ''C:'' @ [sep] @ ''ProgramData'',
      ''C:'' @ [sep] @ ''Users'' @ [sep] @ ''All Users'',
      ''C:'' @ [sep] @ ''$Recycle.Bin'',
      ''C:'' @ [sep] @ ''System Volume Information'',
      ''D:'' @ [sep] @ ''Program Files'',
      ''D:'' @ [sep] @ ''Program Files (x86)'',
      ''E:'' @ [sep] @ ''Program Files'',
      ''E:'' @ [sep] @ ''Program Files (x86)'',
      ''C:'' @ [sep] @ ''FilePurger'']"

text \<open>
  The loop of \<open>is_excluded\<close> over the exclude list: only a \<open>ValueError\<close> of
  \<open>commonpath\<close> is caught.
\<close>

fun is_excluded_in :: "string \<Rightarrow> string list \<Rightarrow> py_error + bool" where
  "is_excluded_in abs_path [] = Inr False"
| "is_excluded_in abs_path (excl # rest) =
     (case commonpath abs_path excl of
        Inr cp \<Rightarrow> if cp = excl then Inr True else is_excluded_in abs_path rest
      | Inl ValueError \<Rightarrow> is_excluded_in abs_path rest
      | Inl e \<Rightarrow> Inl e)"

definition is_excluded :: "(string \<Rightarrow> string) \<Rightarrow> string \<Rightarrow> py_error + bool" where
  "is_excluded abspath path = is_excluded_in (abspath path) SAFE_EXCLUDE_DIRS"

text \<open>
  \<open>os.path.relpath(path, start)\<close>.  \<open>normcase\<close> lower-cases and turns \<open>/\<close> into the
  separator; the final \<open>join(*rel_list)\<close> is \<open>os.path.join\<close> applied from the left.
\<close>

definition normcase :: "string \<Rightarrow> string" where
  "normcase s = lower (replace_chr altsep sep s)"

definition relpath :: "(string \<Rightarrow> string) \<Rightarrow> string \<Rightarrow> string \<Rightarrow> py_error + string" where
  "relpath abspath path start =
     (let start_abs = abspath start;
          path_abs = abspath path;
          (start_drive, start_rest) = splitdrive start_abs;
          (path_drive, path_rest) = splitdrive path_abs
      in if normcase start_drive \<noteq> normcase path_drive then Inl ValueError
         else
           (let start_list = filter (\<lambda>x. x \<noteq> []) (split_chr sep start_rest);
                path_list = filter (\<lambda>x. x \<noteq> []) (split_chr sep path_rest);
                i = length (takeWhile (\<lambda>(e1, e2). normcase e1 = normcase e2)
                                      (zip start_list path_list));
                rel_list = replicate (length start_list - i) pardir @ drop i path_list
            in case rel_list of
                 [] \<Rightarrow> Inr curdir
               | x # xs \<Rightarrow> Inr (foldl path_join x xs)))"

section \<open>\<open>pathlib\<close> paths on Windows\<close>

text \<open>
  A \<open>pathlib.Path\<close> is its parsed form: the drive, the root (empty or one separator)
  and the components after the anchor.  As for \<open>splitdrive\<close>, UNC prefixes are outside
  the model.
\<close>

record ppath =
  p_drv :: string
  p_root :: string
  p_parts :: "string list"

definition is_letter :: "char \<Rightarrow> bool" where
  "is_letter c =
     (let n = (of_char c :: nat) in (65 \<le> n \<and> n \<le> 90) \<or> (97 \<le> n \<and> n \<le> 122))"

definition splitroot :: "string \<Rightarrow> string \<times> string \<times> string" where
  "splitroot part =
     (let (d, rest) =
            (if take 1 (drop 1 part) = [colon] \<and> is_letter (hd part)
             then (take 2 part, drop 2 part) else ([], part))
      in if take 1 rest = [sep] then (d, [sep], dropWhile (\<lambda>c. c = sep) rest)
         else (d, [], rest))"

text \<open>\<open>Path(s)\<close> for one string argument.\<close>

definition parse_path :: "string \<Rightarrow> ppath" where
  "parse_path s =
     (let (d, r, rel) = splitroot (replace_chr altsep sep s)
      in \<lparr>p_drv = d, p_root = r, p_parts = components rel\<rparr>)"

text \<open>\<open>str(p)\<close>.\<close>

definition str_of :: "ppath \<Rightarrow> string" where
  "str_of p =
     (let s = p_drv p @ p_root p @ join_chr sep (p_parts p)
      in if s = [] then curdir else s)"

text \<open>\<open>p / q\<close> for two paths; a string operand is parsed first.\<close>

definition pp_join :: "ppath \<Rightarrow> ppath \<Rightarrow> ppath" where
  "pp_join p q =
     (if p_root q \<noteq> [] then
        (if p_drv q = [] \<and> p_drv p \<noteq> [] then q\<lparr>p_drv := p_drv p\<rparr> else q)
      else if p_drv q \<noteq> [] then
        (if p_drv q = p_drv p \<or> lower (p_drv q) = lower (p_drv p)
         then p\<lparr>p_parts := p_parts p @ p_parts q\<rparr> else q)
      else p\<lparr>p_parts := p_parts p @ p_parts q\<rparr>)"

definition pp_name :: "ppath \<Rightarrow> string" where
  "pp_name p = (if p_parts p = [] then [] else last (p_parts p))"

definition pp_suffix :: "ppath \<Rightarrow> string" where
  "pp_suffix p =
     (let name = pp_name p; i = rfind extsep name
      in if 0 < i \<and> i < int (length name) - 1 then drop (nat i) name else [])"

definition pp_stem :: "ppath \<Rightarrow> string" where
  "pp_stem p =
     (let name = pp_name p; i = rfind extsep name
      in if 0 < i \<and> i < int (length name) - 1 then take (nat i) name else name)"

definition pp_parent :: "ppath \<Rightarrow> ppath" where
  "pp_parent p = (if p_parts p = [] then p else p\<lparr>p_parts := butlast (p_parts p)\<rparr>)"

definition abs_parts :: "ppath \<Rightarrow> string list" where
  "abs_parts p =
     (if p_root p \<noteq> [] then [p_drv p, p_root p] @ p_parts p
      else if p_drv p \<noteq> [] then p_drv p # p_parts p
      else p_parts p)"

text \<open>\<open>p.relative_to(other)\<close>: the comparison folds case; a mismatch raises.\<close>

definition relative_to :: "ppath \<Rightarrow> ppath \<Rightarrow> py_error + ppath" where
  "relative_to p other =
     (let n = length (abs_parts other)
      in if (if n = 0 then p_root p \<noteq> [] \<or> p_drv p \<noteq> []
             else map lower (take n (abs_parts p)) \<noteq> map lower (abs_parts other))
         then Inl ValueError
         else Inr \<lparr>p_drv = [], p_root = (if n = 1 then p_root p else []),
                   p_parts = drop n (abs_parts p)\<rparr>)"

section \<open>The quarantine destination\<close>

text \<open>
  \<open>hashlib.sha256(...).hexdigest()\<close> is a parameter \<open>sha256_hex\<close>: the theorems hold for
  any hash function.
\<close>

definition short_hash :: "(string \<Rightarrow> string) \<Rightarrow> string \<Rightarrow> string" where
  "short_hash sha256_hex s = take 8 (sha256_hex s)"

definition build_quarantine_dest ::
  "(string \<Rightarrow> string) \<Rightarrow> ppath \<Rightarrow> ppath \<Rightarrow> py_error + ppath" where
  "build_quarantine_dest sha256_hex quarantine_root src_path =
     (let drive = fst (splitdrive (str_of src_path));
          stripped = filter (\<lambda>c. c \<noteq> colon) drive;
          drive_letter = (if stripped = [] then ''ROOT'' else stripped)
      in case relative_to src_path (parse_path (drive @ [sep])) of
           Inl e \<Rightarrow> Inl e
         | Inr rel \<Rightarrow>
             (let base = pp_stem src_path;
                  ext = pp_suffix src_path;
                  sfx = ''__'' @ short_hash sha256_hex (str_of src_path) @ ext
              in Inr (pp_join (pp_join (pp_join quarantine_root (parse_path drive_letter))
                                       (pp_parent rel))
                              (parse_path (base @ sfx)))))"

section \<open>Configuration\<close>

text \<open>
  The parsed \<open>config.json\<close>: a key that is absent is \<open>None\<close>; \<open>FILE_CATEGORIES\<close> is a
  JSON object, kept as the list of its items in order.
\<close>

record json_cfg =
  j_PROGRAM_DATA_DIR :: "string option"
  j_EXCLUDE_DIRS :: "string list option"
  j_FILE_CATEGORIES :: "(string \<times> string list) list option"
  j_retention_days :: "int option"
  j_dry_run :: "bool option"
  j_AutoDelete :: "bool option"

record config =
  cfg_PROGRAM_DATA_DIR :: string
  cfg_EXCLUDE_DIRS :: "string list"
  cfg_FILE_CATEGORIES :: "(string \<times> string list) list"
  cfg_retention_days :: int
  cfg_dry_run :: bool
  cfg_AutoDelete :: bool

text \<open>\<open>d[k] = v\<close> on a dictionary: an existing key keeps its place.\<close>

fun dict_set :: "'k \<Rightarrow> 'v \<Rightarrow> ('k \<times> 'v) list \<Rightarrow> ('k \<times> 'v) list" where
  "dict_set k v [] = [(k, v)]"
| "dict_set k v ((k', v') # d) =
     (if k' = k then (k, v) # d else (k', v') # dict_set k v d)"

text \<open>The set \<open>all_exts\<close> after the loop over \<open>cfg["FILE_CATEGORIES"].values()\<close>, sorted.\<close>

definition all_exts :: "(string \<times> string list) list \<Rightarrow> string list" where
  "all_exts cats = sort (remdups (concat (map (\<lambda>(k, exts). map lower exts) cats)))"

text \<open>\<open>load_config_or_exit\<close> after parsing: \<open>None\<close> is \<open>sys.exit(1)\<close>.\<close>

definition load_config_or_exit :: "json_cfg \<Rightarrow> config option" where
  "load_config_or_exit j =
     (case (j_PROGRAM_DATA_DIR j, j_EXCLUDE_DIRS j, j_FILE_CATEGORIES j) of
        (Some pdd, Some excl, Some cats) \<Rightarrow>
          Some \<lparr>cfg_PROGRAM_DATA_DIR = pdd,
                cfg_EXCLUDE_DIRS = excl,
                cfg_FILE_CATEGORIES = dict_set ''all'' (all_exts cats) cats,
                cfg_retention_days = (case j_retention_days j of None \<Rightarrow> 7 | Some r \<Rightarrow> r),
                cfg_dry_run = (case j_dry_run j of None \<Rightarrow> False | Some b \<Rightarrow> b),
                cfg_AutoDelete = (case j_AutoDelete j of None \<Rightarrow> False | Some b \<Rightarrow> b)\<rparr>
      | _ \<Rightarrow> None)"

text \<open>\<open>FILE_CATEGORIES\<close> of \<open>safe_purge.py\<close>, with its \<open>"all"\<close> entry.\<close>

definition SAFE_CATEGORIES :: "(string \<times> string list) list" where
  "SAFE_CATEGORIES =
     [(''documents'', [''.doc'', ''.docx'', ''.xls'', ''.xlsx'', ''.ppt'', ''.pptx'', ''.pdf'',
                       ''.csv'', ''.rtf'']),
      (''videos'', [''.mp4'', ''.avi'', ''.mov'', ''.mkv'', ''.wmv'', ''.m4v'', ''.3gp'',
                    ''.flv'', ''.webm'']),
      (''images'', [''.jpg'', ''.jpeg'', ''.png'', ''.gif'', ''.bmp'', ''.tiff'', ''.webp'']),
      (''archives'', [''.zip'', ''.rar'', ''.7z'', ''.tar'', ''.gz''])]"

definition SAFE_FILE_CATEGORIES :: "(string \<times> string list) list" where
  "SAFE_FILE_CATEGORIES =
     dict_set ''all'' (sort (remdups (concat (map snd SAFE_CATEGORIES)))) SAFE_CATEGORIES"

section \<open>The scanned file system and the events\<close>

text \<open>
  What the operating system answers is input.  For each file: its name, what
  \<open>os.path.getmtime\<close> gives, what \<open>time.time()\<close> reads when the age is computed, and how
  creating the destination directory and moving the file ends.  A directory is what
  \<open>os.walk\<close> lists in it: its files and its named subdirectories.  Timestamps are exact
  real numbers of seconds; the rounding of floating-point arithmetic is not modelled.
\<close>

datatype stat_res = Mtime real | StatNotFound | StatPermission | StatOther

datatype move_res = MoveOk | MovePermission | MoveOther

record file_entry =
  fname :: string
  getmtime :: stat_res
  clock :: real
  move_result :: move_res

datatype dir = Dir "file_entry list" "(string \<times> dir) list"

datatype item_kind = IsFile | IsLink | IsDir | IsOther

record item =
  item_name :: string
  item_kind :: item_kind
  delete_fails :: bool

record os_env =
  os_abspath :: "string \<Rightarrow> string"
  os_resolve :: "ppath \<Rightarrow> string"
  os_sha256_hex :: "string \<Rightarrow> string"
  os_time :: real
  os_drives :: "(string \<times> dir) list"
  os_isdir :: "string \<Rightarrow> bool"
  os_listdir :: "string \<Rightarrow> item list"

text \<open>
  The tagged log lines, and the four untagged lines of \<open>clear_directory\<close>.  The lines
  \<open>[DENIED] move\<close> and \<open>[ERROR] move\<close> are \<open>DENIED_move\<close> and \<open>ERROR_move\<close>.
\<close>

datatype event =
    SCAN string
  | GONE string
  | DENIED string
  | ERROR string
  | MATCH string int
  | SKIP string int
  | MOVE string string int
  | DENIED_move string
  | ERROR_move string
  | Directory_not_found string
  | Clearing_directory string
  | Failed_to_delete string
  | Finished_clearing string

fun ev_path :: "event \<Rightarrow> string" where
  "ev_path (SCAN p) = p"
| "ev_path (GONE p) = p"
| "ev_path (DENIED p) = p"
| "ev_path (ERROR p) = p"
| "ev_path (MATCH p a) = p"
| "ev_path (SKIP p a) = p"
| "ev_path (MOVE p d a) = p"
| "ev_path (DENIED_move p) = p"
| "ev_path (ERROR_move p) = p"
| "ev_path (Directory_not_found p) = p"
| "ev_path (Clearing_directory p) = p"
| "ev_path (Failed_to_delete p) = p"
| "ev_path (Finished_clearing p) = p"

text \<open>The events about one file: every tagged line except \<open>[SCAN]\<close>.\<close>

fun per_file :: "event \<Rightarrow> bool" where
  "per_file (GONE p) = True"
| "per_file (DENIED p) = True"
| "per_file (ERROR p) = True"
| "per_file (MATCH p a) = True"
| "per_file (SKIP p a) = True"
| "per_file (MOVE p d a) = True"
| "per_file (DENIED_move p) = True"
| "per_file (ERROR_move p) = True"
| "per_file e = False"

text \<open>
  The state a run changes: the lines logged so far, in order, and the set of paths at
  which a file is present.
\<close>

record world =
  events :: "event list"
  present :: "string set"

definition info :: "event \<Rightarrow> world \<Rightarrow> world" where
  "info e w = w\<lparr>events := events w @ [e]\<rparr>"

text \<open>A successful \<open>shutil.move(src, dest)\<close>.\<close>

definition move_file :: "string \<Rightarrow> string \<Rightarrow> world \<Rightarrow> world" where
  "move_file src dest w = w\<lparr>present := insert dest (present w - {src})\<rparr>"

section \<open>\<open>auto_purge.py\<close>: the scan\<close>

text \<open>The local variables of \<open>run_scan\<close> that the walk reads.\<close>

record scan_locals =
  QUARANTINE_DIR :: ppath
  EXCLUDE_DIRS :: "string list"
  SELECTED_EXTS :: "string set"
  cutoff_epoch :: real

text \<open>The body of the loop \<open>for fname in files\<close>.\<close>

definition scan_file ::
  "os_env \<Rightarrow> config \<Rightarrow> scan_locals \<Rightarrow> string \<Rightarrow> world \<Rightarrow> file_entry \<Rightarrow> world" where
  "scan_file env cfg loc rootdir w f =
     (let fpath = path_join rootdir (fname f);
          ext = lower (snd (splitext (fname f)))
      in if ext \<notin> SELECTED_EXTS loc then w
         else
           (case getmtime f of
              StatNotFound \<Rightarrow> info (GONE fpath) w
            | StatPermission \<Rightarrow> info (DENIED fpath) w
            | StatOther \<Rightarrow> info (ERROR fpath) w
            | Mtime mtime \<Rightarrow>
                (let age_days = \<lfloor>(clock f - mtime) / 86400\<rfloor>
                 in if mtime < cutoff_epoch loc then
                      (let w1 = info (MATCH fpath age_days) w
                       in if \<not> cfg_dry_run cfg then
                            (case build_quarantine_dest (os_sha256_hex env)
                                    (QUARANTINE_DIR loc) (parse_path fpath) of
                               Inl e \<Rightarrow> info (ERROR_move fpath) w1
                             | Inr dest \<Rightarrow>
                                 (case move_result f of
                                    MoveOk \<Rightarrow>
                                      info (MOVE fpath (str_of dest) age_days)
                                          (move_file fpath (str_of dest) w1)
                                  | MovePermission \<Rightarrow> info (DENIED_move fpath) w1
                                  | MoveOther \<Rightarrow> info (ERROR_move fpath) w1))
                          else w1)
                    else info (SKIP fpath age_days) w)))"

text \<open>
  One step of \<open>os.walk(drive, topdown=True)\<close> with the body of the loop: the excluded
  subdirectories are removed from \<open>dirs\<close>, the directory is logged, its files are
  processed, and the walk goes down into the subdirectories that are left.
\<close>

fun walk :: "os_env \<Rightarrow> config \<Rightarrow> scan_locals \<Rightarrow> string \<Rightarrow> dir \<Rightarrow> world \<Rightarrow> world" where
  "walk env cfg loc rootdir (Dir files dirs) w =
     (let kept = filter (\<lambda>(d, t). \<not> should_exclude_dir (os_abspath env)
                                      (path_join rootdir d) (EXCLUDE_DIRS loc)) dirs;
          w1 = info (SCAN rootdir) w;
          w2 = foldl (scan_file env cfg loc rootdir) w1 files
      in foldl (\<lambda>w' (d, t). walk env cfg loc (path_join rootdir d) t w') w2 kept)"

section \<open>\<open>auto_purge.py\<close>: clearing the quarantine\<close>

text \<open>
  The value a Python function returns; a function without a \<open>return\<close> statement
  returns \<open>None\<close>.
\<close>

datatype pyval = PyNone | PyInt int

text \<open>A successful \<open>os.unlink\<close> of a file and a successful \<open>shutil.rmtree\<close> of a tree.\<close>

definition unlink :: "string \<Rightarrow> world \<Rightarrow> world" where
  "unlink item_path w = w\<lparr>present := present w - {item_path}\<rparr>"

definition rmtree :: "string \<Rightarrow> world \<Rightarrow> world" where
  "rmtree item_path w =
     w\<lparr>present := Set.filter (\<lambda>p. \<not> prefix (item_path @ [sep]) p) (present w)\<rparr>"

text \<open>
  The body of the loop \<open>for item in os.listdir(directory_path)\<close>: an exception of the
  deletion is caught and logged.
\<close>

definition clear_item :: "string \<Rightarrow> world \<Rightarrow> item \<Rightarrow> world" where
  "clear_item directory_path w it =
     (let item_path = path_join directory_path (item_name it)
      in if item_kind it = IsFile \<or> item_kind it = IsLink then
           (if delete_fails it then info (Failed_to_delete item_path) w
            else unlink item_path w)
         else if item_kind it = IsDir then
           (if delete_fails it then info (Failed_to_delete item_path) w
            else rmtree item_path w)
         else w)"

text \<open>
  \<open>clear_directory\<close> gives the state it leaves and either the exception it raises or
  the value it returns.
\<close>

definition clear_directory :: "os_env \<Rightarrow> string \<Rightarrow> world \<Rightarrow> world \<times> (py_error + pyval)" where
  "clear_directory env directory_path w =
     (if \<not> os_isdir env directory_path then
        (info (Directory_not_found directory_path) w, Inl FileNotFoundError)
      else
        (let w1 = info (Clearing_directory directory_path) w;
             w2 = foldl (clear_item directory_path) w1 (os_listdir env directory_path)
         in (info (Finished_clearing directory_path) w2, Inr PyNone)))"

section \<open>\<open>auto_purge.py\<close>: \<open>run_scan\<close>\<close>

text \<open>The loop over the drives and the walk of each: the traversal of \<open>run_scan\<close>.\<close>

definition scan_drives :: "os_env \<Rightarrow> config \<Rightarrow> scan_locals \<Rightarrow> world \<Rightarrow> world" where
  "scan_drives env cfg loc w =
     foldl (\<lambda>w' (drive, t). walk env cfg loc drive t w') w (os_drives env)"

text \<open>
  The local variables that \<open>run_scan\<close> sets up before the walk; \<open>all\<close> is
  \<open>cfg["FILE_CATEGORIES"]["all"]\<close>.
\<close>

definition scan_setup :: "os_env \<Rightarrow> config \<Rightarrow> string list \<Rightarrow> scan_locals" where
  "scan_setup env cfg all =
     (let PDD = parse_path (cfg_PROGRAM_DATA_DIR cfg);
          Q = pp_join PDD (parse_path ''Quarantine'');
          LOGS = pp_join PDD (parse_path ''Logs'')
      in \<lparr>QUARANTINE_DIR = Q,
          EXCLUDE_DIRS = map (os_abspath env) (cfg_EXCLUDE_DIRS cfg)
                         @ [os_resolve env Q, os_resolve env LOGS, os_resolve env PDD],
          SELECTED_EXTS = set all,
          cutoff_epoch = os_time env - of_int (cfg_retention_days cfg * 86400)\<rparr>)"

text \<open>
  \<open>run_scan\<close>: the set-up, the traversal and, with \<open>AutoDelete\<close>, the clearing of the
  quarantine.  The header and the disk usage lines are left out.
\<close>

definition run_scan :: "os_env \<Rightarrow> config \<Rightarrow> world \<Rightarrow> world \<times> (py_error + pyval)" where
  "run_scan env cfg w =
     (case map_of (cfg_FILE_CATEGORIES cfg) ''all'' of
        None \<Rightarrow> (w, Inl KeyError)
      | Some all \<Rightarrow>
          (let loc = scan_setup env cfg all;
               w1 = scan_drives env cfg loc w
           in if cfg_AutoDelete cfg then clear_directory env (str_of (QUARANTINE_DIR loc)) w1
              else (w1, Inr PyNone)))"

section \<open>\<open>safe_purge.py\<close>: \<open>purge_files\<close>\<close>

definition SAFE_PROGRAM_DATA_DIR :: string where
  "SAFE_PROGRAM_DATA_DIR = ''C:'' @ [sep] @ ''FilePurger''"

definition SAFE_QUARANTINE_DIR :: string where
  "SAFE_QUARANTINE_DIR = path_join SAFE_PROGRAM_DATA_DIR ''Quarantine''"

text \<open>\<open>s.endswith(tuple(extensions))\<close>.\<close>

definition endswith_any :: "string \<Rightarrow> string list \<Rightarrow> bool" where
  "endswith_any s extensions = list_ex (\<lambda>e. suffix e s) extensions"

text \<open>
  The body of the loop \<open>for file in files\<close>.  One \<open>except Exception\<close> covers the whole
  body: a failure of \<open>getmtime\<close>, of \<open>relpath\<close> or of the move is logged as an error.
\<close>

definition purge_file ::
  "os_env \<Rightarrow> real \<Rightarrow> string list \<Rightarrow> int \<Rightarrow> bool \<Rightarrow> string \<Rightarrow> string \<Rightarrow> world \<Rightarrow> file_entry
     \<Rightarrow> world" where
  "purge_file env now extensions retention_days dry_run drive rootdir w f =
     (let file_path = path_join rootdir (fname f)
      in if extensions \<noteq> [] \<and> \<not> endswith_any (lower (fname f)) extensions then w
         else
           (case getmtime f of
              Mtime mtime \<Rightarrow>
                (let age_days = \<lfloor>(now - mtime) / 86400\<rfloor>
                 in if age_days \<ge> retention_days then
                      (let w1 = info (MATCH file_path age_days) w
                       in if \<not> dry_run then
                            (case relpath (os_abspath env) file_path drive of
                               Inl e \<Rightarrow> info (ERROR file_path) w1
                             | Inr rel \<Rightarrow>
                                 (let dest_path = path_join SAFE_QUARANTINE_DIR rel
                                  in case move_result f of
                                       MoveOk \<Rightarrow>
                                         info (MOVE file_path dest_path age_days)
                                              (move_file file_path dest_path w1)
                                     | _ \<Rightarrow> info (ERROR file_path) w1))
                          else w1)
                    else info (SKIP file_path age_days) w)
            | _ \<Rightarrow> info (ERROR file_path) w))"

text \<open>
  One step of \<open>os.walk(drive)\<close> with the body of the loop: an excluded directory is
  skipped with all that is below it.  An exception of \<open>is_excluded\<close> other than the
  \<open>ValueError\<close> it catches ends the run.
\<close>

fun purge_walk ::
  "os_env \<Rightarrow> real \<Rightarrow> string list \<Rightarrow> int \<Rightarrow> bool \<Rightarrow> string \<Rightarrow> string \<Rightarrow> dir \<Rightarrow> world
     \<Rightarrow> py_error + world"
and purge_walks ::
  "os_env \<Rightarrow> real \<Rightarrow> string list \<Rightarrow> int \<Rightarrow> bool \<Rightarrow> string \<Rightarrow> string \<Rightarrow> (string \<times> dir) list
     \<Rightarrow> world \<Rightarrow> py_error + world" where
  "purge_walk env now extensions retention_days dry_run drive rootdir (Dir files dirs) w =
     (case is_excluded (os_abspath env) rootdir of
        Inl e \<Rightarrow> Inl e
      | Inr True \<Rightarrow> Inr w
      | Inr False \<Rightarrow>
          purge_walks env now extensions retention_days dry_run drive rootdir dirs
            (foldl (purge_file env now extensions retention_days dry_run drive rootdir)
                   w files))"
| "purge_walks env now extensions retention_days dry_run drive rootdir [] w = Inr w"
| "purge_walks env now extensions retention_days dry_run drive rootdir ((d, t) # rest) w =
     (case purge_walk env now extensions retention_days dry_run drive
             (path_join rootdir d) t w of
        Inl e \<Rightarrow> Inl e
      | Inr w' \<Rightarrow>
          purge_walks env now extensions retention_days dry_run drive rootdir rest w')"

text \<open>The loop \<open>for drive in get_all_drives()\<close>.\<close>

fun purge_drives ::
  "os_env \<Rightarrow> real \<Rightarrow> string list \<Rightarrow> int \<Rightarrow> bool \<Rightarrow> (string \<times> dir) list \<Rightarrow> world
     \<Rightarrow> py_error + world" where
  "purge_drives env now extensions retention_days dry_run [] w = Inr w"
| "purge_drives env now extensions retention_days dry_run ((drive, t) # rest) w =
     (case purge_walk env now extensions retention_days dry_run drive drive t w of
        Inl e \<Rightarrow> Inl e
      | Inr w' \<Rightarrow> purge_drives env now extensions retention_days dry_run rest w')"

definition category_extensions :: "string list \<Rightarrow> string list" where
  "category_extensions categories =
     concat (map (\<lambda>cat. case map_of SAFE_FILE_CATEGORIES cat of
                           None \<Rightarrow> []
                         | Some exts \<Rightarrow> exts) categories)"

definition purge_files :: "os_env \<Rightarrow> string list \<Rightarrow> int \<Rightarrow> bool \<Rightarrow> world \<Rightarrow> py_error + world" where
  "purge_files env categories retention_days dry_run w =
     purge_drives env (os_time env) (category_extensions categories) retention_days dry_run
       (os_drives env) w"

section \<open>Notions used in the properties\<close>

subsection \<open>What a run adds to the log\<close>

text \<open>The lines logged between two states.\<close>

definition new_events :: "world \<Rightarrow> world \<Rightarrow> event list" where
  "new_events w w' = drop (length (events w)) (events w')"

text \<open>The lines that report a move or a failed move.\<close>

fun is_move_event :: "event \<Rightarrow> bool" where
  "is_move_event (MOVE p d a) = True"
| "is_move_event (DENIED_move p) = True"
| "is_move_event (ERROR_move p) = True"
| "is_move_event e = False"

text \<open>From \<open>w\<close> to \<open>w'\<close> no file was moved: the same files are present, the log has only grown,
  and none of the new lines reports a move or a failed move.\<close>

definition unchanged_by :: "world \<Rightarrow> world \<Rightarrow> bool" where
  "unchanged_by w w' =
     (present w' = present w \<and> prefix (events w) (events w')
      \<and> list_all (\<lambda>e. \<not> is_move_event e) (new_events w w'))"

text \<open>
  From \<open>w\<close> to \<open>w'\<close> the log has only grown, and every new line satisfies \<open>P\<close>.
\<close>

definition emits :: "(event \<Rightarrow> bool) \<Rightarrow> world \<Rightarrow> world \<Rightarrow> bool" where
  "emits P w w' = (prefix (events w) (events w') \<and> list_all P (new_events w w'))"

text \<open>The entries of a listing whose deletion raises.\<close>

definition failed_items :: "item list \<Rightarrow> item list" where
  "failed_items items = filter (\<lambda>it. delete_fails it \<and> item_kind it \<noteq> IsOther) items"

subsection \<open>Canonical paths\<close>

text \<open>
  A file or directory name as a listing gives it: not empty, not \<open>.\<close>, without a
  separator and without a colon.
\<close>

definition valid_name :: "string \<Rightarrow> bool" where
  "valid_name s = (s \<noteq> [] \<and> s \<noteq> curdir \<and> sep \<notin> set s \<and> altsep \<notin> set s \<and> colon \<notin> set s)"

text \<open>
  A drive designator: a letter and a colon.
\<close>

definition valid_drive :: "string \<Rightarrow> bool" where
  "valid_drive d = (length d = 2 \<and> is_letter (d ! 0) \<and> d ! 1 = colon)"



text \<open>
  The absolute path made of a drive and the names below its root: \<open>X:\\a\\b\<close>.
\<close>

definition winpath :: "string \<Rightarrow> string list \<Rightarrow> string" where
  "winpath d names = d @ [sep] @ join_chr sep names"


text \<open>
  The length of the longest common prefix of two lists.
\<close>

fun lcp_len :: "'a list \<Rightarrow> 'a list \<Rightarrow> nat" where
  "lcp_len (x # xs) (y # ys) = (if x = y then Suc (lcp_len xs ys) else 0)"
| "lcp_len xs ys = 0"

text \<open>
  A tree in which every file and directory has a valid name.
\<close>

fun valid_tree :: "dir \<Rightarrow> bool" where
  "valid_tree (Dir files dirs) =
     (list_all (\<lambda>f. valid_name (fname f)) files
      \<and> list_all (\<lambda>(n, t). valid_name n \<and> valid_tree t) dirs)"

text \<open>
  A directory tree without the files whose extension is not selected.
\<close>

fun keep_selected :: "string set \<Rightarrow> dir \<Rightarrow> dir" where
  "keep_selected S (Dir files dirs) =
     Dir (filter (\<lambda>f. lower (snd (splitext (fname f))) \<in> S) files)
         (map (\<lambda>(d, t). (d, keep_selected S t)) dirs)"

text \<open>
  The event is about a path \<open>ms\<close> below the directory \<open>d:\\ps\<close>, and no directory on the
  way from there down to the event's directory (for a file: the directory that holds it)
  is excluded; the directory \<open>d:\\ps\<close> itself is not looked at.
\<close>

definition below_unexcluded ::
  "(string \<Rightarrow> string) \<Rightarrow> string list \<Rightarrow> string \<Rightarrow> string list \<Rightarrow> event \<Rightarrow> bool" where
  "below_unexcluded ap excl d ps e =
     (\<exists>ms. ev_path e = winpath d (ps @ ms) \<and> list_all valid_name ms
           \<and> (per_file e \<longrightarrow> ms \<noteq> [])
           \<and> (\<forall>i. 1 \<le> i \<and> i + (if per_file e then 1 else 0) \<le> length ms \<longrightarrow>
                  \<not> should_exclude_dir ap (winpath d (ps @ take i ms)) excl))"

subsection \<open>The destination in the words of the specification\<close>

text \<open>
  The characters of a hexadecimal digest.
\<close>

definition hexdigits :: "char set" where
  "hexdigits = set ''0123456789abcdef''"

text \<open>
  The volume tag of a source path: the drive without its colon, \<open>ROOT\<close> when the
  path has no drive.
\<close>

definition volume_tag :: "ppath \<Rightarrow> string" where
  "volume_tag src = (if p_drv src = [] then ''ROOT'' else filter (\<lambda>c. c \<noteq> colon) (p_drv src))"

text \<open>
  The destination in the words of the specification: quarantine root, volume tag,
  the parent directories of the source below its root, and the file name with the first
  eight characters of the digest of the source path between stem and extension.
\<close>

definition quarantine_destination :: "(string \<Rightarrow> string) \<Rightarrow> ppath \<Rightarrow> ppath \<Rightarrow> ppath" where
  "quarantine_destination digest quarantineRoot src =
     quarantineRoot\<lparr>p_parts := p_parts quarantineRoot @ [volume_tag src] @ butlast (p_parts src)
                       @ [pp_stem src @ ''__'' @ take 8 (digest (str_of src)) @ pp_suffix src]\<rparr>"

section \<open>Concrete inputs\<close>

text \<open>A quarantine directory \<open>Q\<close> with two files; the first cannot be deleted.\<close>

definition demo_items :: "item list" where
  "demo_items =
     [\<lparr>item_name = ''a.pdf'', item_kind = IsFile, delete_fails = True\<rparr>,
      \<lparr>item_name = ''b.pdf'', item_kind = IsFile, delete_fails = False\<rparr>]"

definition demo_clear_env :: os_env where
  "demo_clear_env =
     \<lparr>os_abspath = (\<lambda>p. p), os_resolve = str_of, os_sha256_hex = (\<lambda>s. []), os_time = 0,
      os_drives = [], os_isdir = (\<lambda>p. True), os_listdir = (\<lambda>p. demo_items)\<rparr>"

definition demo_clear_world :: world where
  "demo_clear_world =
     \<lparr>events = [], present = {''Q'' @ [sep] @ ''a.pdf'', ''Q'' @ [sep] @ ''b.pdf''}\<rparr>"

text \<open>A configuration in which the user supplies an \<open>"all"\<close> category of their own.\<close>

definition demo_all_json :: json_cfg where
  "demo_all_json =
     \<lparr>j_PROGRAM_DATA_DIR = Some (''C:'' @ [sep] @ ''FilePurger''),
      j_EXCLUDE_DIRS = Some [],
      j_FILE_CATEGORIES = Some [(''documents'', [''.pdf'']), (''all'', [''.exe''])],
      j_retention_days = None, j_dry_run = None, j_AutoDelete = None\<rparr>"

text \<open>
  A drive \<open>C:\<close> with three files in its root and one more in \<open>Users\<close>; the clock reads
  1000000 when the scan starts.  \<open>new.pdf\<close> was modified exactly one day (86400 seconds)
  before that.
\<close>

definition demo_drive :: string where
  "demo_drive = ''C:'' @ [sep]"

definition demo_old_file :: file_entry where
  "demo_old_file = \<lparr>fname = ''old.PDF'', getmtime = Mtime 100, clock = 1000001, move_result = MoveOk\<rparr>"

definition demo_boundary_file :: file_entry where
  "demo_boundary_file =
     \<lparr>fname = ''new.pdf'', getmtime = Mtime 913600, clock = 1000001, move_result = MoveOk\<rparr>"

definition demo_exe_file :: file_entry where
  "demo_exe_file = \<lparr>fname = ''x.exe'', getmtime = Mtime 100, clock = 1000001, move_result = MoveOk\<rparr>"

definition demo_tree :: dir where
  "demo_tree = Dir [demo_old_file, demo_boundary_file, demo_exe_file] [(''Users'', Dir [demo_old_file] [])]"

definition demo_env :: os_env where
  "demo_env =
     \<lparr>os_abspath = (\<lambda>p. p), os_resolve = str_of,
      os_sha256_hex = (\<lambda>s. ''0123456789abcdef0123456789abcdef0123456789abcdef0123456789abcdef''),
      os_time = 1000000, os_drives = [(demo_drive, demo_tree)],
      os_isdir = (\<lambda>p. True), os_listdir = (\<lambda>p. [])\<rparr>"

text \<open>
  A loaded configuration: one category, retention of one day.
\<close>

definition demo_cfg :: config where
  "demo_cfg =
     \<lparr>cfg_PROGRAM_DATA_DIR = ''C:'' @ [sep] @ ''FilePurger'', cfg_EXCLUDE_DIRS = [],
      cfg_FILE_CATEGORIES = [(''documents'', [''.pdf'']), (''all'', [''.pdf''])],
      cfg_retention_days = 1, cfg_dry_run = False, cfg_AutoDelete = False\<rparr>"

definition demo_world :: world where
  "demo_world = \<lparr>events = [], present = {demo_drive @ ''old.PDF'', demo_drive @ ''new.pdf''}\<rparr>"

text \<open>
  The same configuration with \<open>dry_run\<close> set.
\<close>

definition demo_cfg_dry :: config where
  "demo_cfg_dry = demo_cfg\<lparr>cfg_dry_run := True\<rparr>"

text \<open>
  The dry-run configuration with the drive root \<open>C:\\\<close> itself in the exclude list.
\<close>

definition demo_cfg_root :: config where
  "demo_cfg_root = demo_cfg_dry\<lparr>cfg_EXCLUDE_DIRS := [demo_drive]\<rparr>"

text \<open>
  A stand-in for SHA-256 with the right shape: 64 hexadecimal digits.
\<close>

definition demo_sha :: "string \<Rightarrow> string" where
  "demo_sha s = ''0123456789abcdef0123456789abcdef0123456789abcdef0123456789abcdef''"

text \<open>
  The quarantine root \<open>C:\\FilePurger\\Quarantine\<close>.
\<close>

definition demo_quarantine :: ppath where
  "demo_quarantine = \<lparr>p_drv = ''C:'', p_root = [sep], p_parts = [''FilePurger'', ''Quarantine'']\<rparr>"

section \<open>Properties\<close>

subsection \<open>The log and the state\<close>

lemma events_info [simp]: "events (info e w) = events w @ [e]"
  by (simp add: info_def)

lemma present_info [simp]: "present (info e w) = present w"
  by (simp add: info_def)

lemma events_unlink [simp]: "events (unlink p w) = events w"
  by (simp add: unlink_def)

lemma events_rmtree [simp]: "events (rmtree p w) = events w"
  by (simp add: rmtree_def)

lemma events_clear_item:
  "events (clear_item d w it) =
     events w @ map (\<lambda>it. Failed_to_delete (path_join d (item_name it))) (failed_items [it])"
  by (cases "item_kind it") (simp_all add: clear_item_def failed_items_def Let_def)

lemma events_clear_items:
  "events (foldl (clear_item d) w items) =
     events w @ map (\<lambda>it. Failed_to_delete (path_join d (item_name it))) (failed_items items)"
proof (induction items arbitrary: w)
  case Nil
  show ?case by (simp add: failed_items_def)
next
  case (Cons it items)
  have "failed_items (it # items) = failed_items [it] @ failed_items items"
    by (simp add: failed_items_def)
  then show ?case
    by (simp add: Cons.IH events_clear_item)
qed

lemma present_clear_item: "present (clear_item d w it) \<subseteq> present w"
  by (auto simp: clear_item_def unlink_def rmtree_def Let_def)

lemma present_clear_items: "present (foldl (clear_item d) w items) \<subseteq> present w"
proof (induction items arbitrary: w)
  case Nil
  show ?case by simp
next
  case (Cons it items)
  have "present (foldl (clear_item d) (clear_item d w it) items) \<subseteq> present (clear_item d w it)"
    by (rule Cons.IH)
  also have "\<dots> \<subseteq> present w"
    by (rule present_clear_item)
  finally show ?case by simp
qed

lemma file_gone_after_clear_item:
  assumes "\<not> delete_fails it" "item_kind it = IsFile \<or> item_kind it = IsLink"
  shows "path_join d (item_name it) \<notin> present (clear_item d w it)"
  using assms by (auto simp: clear_item_def unlink_def Let_def)

lemma tree_gone_after_clear_item:
  assumes "\<not> delete_fails it" "item_kind it = IsDir"
  shows "\<forall>p \<in> present (clear_item d w it). \<not> prefix (path_join d (item_name it) @ [sep]) p"
  using assms by (auto simp: clear_item_def rmtree_def Let_def)

lemma file_gone_after_clear_items:
  assumes "it \<in> set items" "\<not> delete_fails it" "item_kind it = IsFile \<or> item_kind it = IsLink"
  shows "path_join d (item_name it) \<notin> present (foldl (clear_item d) w items)"
  using assms
proof (induction items arbitrary: w)
  case Nil
  then show ?case by simp
next
  case (Cons x items)
  show ?case
  proof (cases "it = x")
    case True
    have "path_join d (item_name it) \<notin> present (clear_item d w x)"
      using True Cons.prems file_gone_after_clear_item by blast
    then show ?thesis
      using present_clear_items [of d "clear_item d w x" items] by auto
  next
    case False
    then have "it \<in> set items" using Cons.prems by simp
    then show ?thesis using Cons.IH Cons.prems by simp
  qed
qed

lemma tree_gone_after_clear_items:
  assumes "it \<in> set items" "\<not> delete_fails it" "item_kind it = IsDir"
  shows "\<forall>p \<in> present (foldl (clear_item d) w items).
           \<not> prefix (path_join d (item_name it) @ [sep]) p"
  using assms
proof (induction items arbitrary: w)
  case Nil
  then show ?case by simp
next
  case (Cons x items)
  show ?case
  proof (cases "it = x")
    case True
    have "\<forall>p \<in> present (clear_item d w x). \<not> prefix (path_join d (item_name it) @ [sep]) p"
      using True Cons.prems tree_gone_after_clear_item by blast
    then show ?thesis
      using present_clear_items [of d "clear_item d w x" items] by auto
  next
    case False
    then have "it \<in> set items" using Cons.prems by simp
    then show ?thesis using Cons.IH Cons.prems by simp
  qed
qed

subsection \<open>Clearing the quarantine\<close>

text \<open>
  C7, as amended.  \<open>clear_directory\<close> raises \<open>FileNotFoundError\<close> at once, deleting
  nothing, when the directory does not exist.  Otherwise it does not raise: it logs one
  line for each entry whose deletion fails, in the order of the listing, goes on with
  the entries after a failure, so that every file, link and subdirectory whose deletion
  does not fail is gone at the end, and it returns \<open>None\<close>.
\<close>

theorem clear_directory_tolerates_item_failures:
  "(\<not> os_isdir env d \<longrightarrow>
      clear_directory env d w = (info (Directory_not_found d) w, Inl FileNotFoundError))
   \<and> (os_isdir env d \<longrightarrow>
        snd (clear_directory env d w) = Inr PyNone
        \<and> events (fst (clear_directory env d w)) =
            events w @ [Clearing_directory d]
            @ map (\<lambda>it. Failed_to_delete (path_join d (item_name it)))
                  (failed_items (os_listdir env d))
            @ [Finished_clearing d]
        \<and> (\<forall>it \<in> set (os_listdir env d). \<not> delete_fails it \<longrightarrow>
              (item_kind it = IsFile \<or> item_kind it = IsLink \<longrightarrow>
                 path_join d (item_name it) \<notin> present (fst (clear_directory env d w)))
              \<and> (item_kind it = IsDir \<longrightarrow>
                   (\<forall>p \<in> present (fst (clear_directory env d w)).
                      \<not> prefix (path_join d (item_name it) @ [sep]) p))))"
proof (cases "os_isdir env d")
  case False
  then show ?thesis by (simp add: clear_directory_def)
next
  case True
  let ?w2 = "foldl (clear_item d) (info (Clearing_directory d) w) (os_listdir env d)"
  have res: "clear_directory env d w = (info (Finished_clearing d) ?w2, Inr PyNone)"
    using True by (simp add: clear_directory_def Let_def)
  have ev: "events (info (Finished_clearing d) ?w2) =
              events w @ [Clearing_directory d]
              @ map (\<lambda>it. Failed_to_delete (path_join d (item_name it)))
                    (failed_items (os_listdir env d))
              @ [Finished_clearing d]"
    by (simp add: events_clear_items)
  have gone: "\<forall>it \<in> set (os_listdir env d). \<not> delete_fails it \<longrightarrow>
              (item_kind it = IsFile \<or> item_kind it = IsLink \<longrightarrow>
                 path_join d (item_name it) \<notin> present (info (Finished_clearing d) ?w2))
              \<and> (item_kind it = IsDir \<longrightarrow>
                   (\<forall>p \<in> present (info (Finished_clearing d) ?w2).
                      \<not> prefix (path_join d (item_name it) @ [sep]) p))"
    using file_gone_after_clear_items tree_gone_after_clear_items by simp
  show ?thesis
    using True ev gone unfolding res by simp
qed

text \<open>
  C7, witness: in the directory \<open>Q\<close> the deletion of \<open>a.pdf\<close> fails, and \<open>b.pdf\<close>,
  listed after it, is deleted all the same.
\<close>

theorem clear_directory_tolerates_item_failures_witness:
  "os_isdir demo_clear_env ''Q''
   \<and> snd (clear_directory demo_clear_env ''Q'' demo_clear_world) = Inr PyNone
   \<and> path_join ''Q'' ''b.pdf'' \<notin> present (fst (clear_directory demo_clear_env ''Q'' demo_clear_world))"
proof -
  have d: "os_isdir demo_clear_env ''Q''"
    by (simp add: demo_clear_env_def)
  have b: "\<lparr>item_name = ''b.pdf'', item_kind = IsFile, delete_fails = False\<rparr>
             \<in> set (os_listdir demo_clear_env ''Q'')"
    by (simp add: demo_clear_env_def demo_items_def)
  from clear_directory_tolerates_item_failures [of demo_clear_env "''Q''" demo_clear_world] d b
  show ?thesis by fastforce
qed

text \<open>
  C7, counterexample to the claim as stated: with exactly one failed deletion the value
  returned is not the count 1.
\<close>

theorem clear_directory_returns_no_count:
  "length (failed_items (os_listdir demo_clear_env ''Q'')) = 1
   \<and> snd (clear_directory demo_clear_env ''Q'' demo_clear_world) \<noteq> Inr (PyInt 1)"
  by (simp add: clear_directory_def demo_clear_env_def demo_items_def failed_items_def Let_def)

subsection \<open>Configuration loading\<close>

lemma set_all_exts: "set (all_exts cats) = (\<Union>(k, exts) \<in> set cats. lower ` set exts)"
  by (auto simp: all_exts_def)

lemma sorted_all_exts: "sorted (all_exts cats) \<and> distinct (all_exts cats)"
  by (simp add: all_exts_def)

lemma map_of_dict_set: "map_of (dict_set k v d) k = Some v"
  by (induction d) auto

lemma map_of_dict_set_other: "k' \<noteq> k \<Longrightarrow> map_of (dict_set k v d) k' = map_of d k'"
  by (induction d) auto

lemma load_config_all:
  assumes "load_config_or_exit j = Some cfg"
  shows "\<exists>cats. j_FILE_CATEGORIES j = Some cats
           \<and> map_of (cfg_FILE_CATEGORIES cfg) ''all'' = Some (all_exts cats)"
  using assms
  by (auto simp: load_config_or_exit_def map_of_dict_set split: option.splits)

text \<open>
  Without a user-supplied \<open>"all"\<close> key the derived category is the sorted union of the
  lower-cased extensions of the configured categories.
\<close>

lemma all_category_without_user_all:
  assumes "load_config_or_exit j = Some cfg" "j_FILE_CATEGORIES j = Some cats"
    and "''all'' \<notin> fst ` set cats"
  shows "\<exists>all. map_of (cfg_FILE_CATEGORIES cfg) ''all'' = Some all
           \<and> set all = (\<Union>(k, exts) \<in> {c \<in> set cats. fst c \<noteq> ''all''}. lower ` set exts)
           \<and> sorted all \<and> distinct all"
proof -
  have "{c \<in> set cats. fst c \<noteq> ''all''} = set cats"
    using assms(3) by force
  then show ?thesis
    using load_config_all [OF assms(1)] assms(2) set_all_exts [of cats] sorted_all_exts [of cats]
    by auto
qed

text \<open>
  The \<open>"all"\<close> category of \<open>safe_purge.py\<close> is built before any \<open>"all"\<close> key exists: it is the
  union of the four categories, whose extensions are lower-case already.
\<close>

lemma SAFE_all_category:
  "map_of SAFE_FILE_CATEGORIES ''all'' = Some (all_exts SAFE_CATEGORIES)
   \<and> ''all'' \<notin> fst ` set SAFE_CATEGORIES"
  by code_simp

text \<open>
  C8, the code at the failing input: the user supplies \<open>"all": [".exe"]\<close> beside the one
  category \<open>"documents": [".pdf"]\<close>.  The loop over \<open>cfg["FILE_CATEGORIES"].values()\<close>
  visits the user's \<open>"all"\<close> entry too, so the derived \<open>"all"\<close> holds \<open>.exe\<close>, which is in no
  other category.
\<close>

theorem user_all_key_is_merged:
  "map_option (\<lambda>cfg. map_of (cfg_FILE_CATEGORIES cfg) ''all'') (load_config_or_exit demo_all_json)
     = Some (Some [''.exe'', ''.pdf''])"
  by code_simp

subsection \<open>States between which nothing moves\<close>

lemma events_move_file [simp]: "events (move_file a b w) = events w"
  by (simp add: move_file_def)

lemma new_events_self [simp]: "new_events w w = []"
  by (simp add: new_events_def)

lemma new_events_info [simp]: "new_events w (info e w) = [e]"
  by (simp add: new_events_def)

lemma new_events_info2 [simp]: "new_events w (info e2 (info e1 w)) = [e1, e2]"
  by (simp add: new_events_def)

lemma new_events_info_move [simp]: "new_events w (info e2 (move_file a b (info e1 w))) = [e1, e2]"
  by (simp add: new_events_def)

lemma new_events_append:
  assumes "prefix (events a) (events b)" "prefix (events b) (events c)"
  shows "new_events a c = new_events a b @ new_events b c"
proof -
  obtain xs where xs: "events b = events a @ xs"
    using assms(1) by (auto simp: prefix_def)
  obtain ys where ys: "events c = events b @ ys"
    using assms(2) by (auto simp: prefix_def)
  show ?thesis
    by (simp add: new_events_def xs ys)
qed

lemma info_neq [simp]: "info e w \<noteq> w"
proof
  assume "info e w = w"
  then have "events (info e w) = events w" by simp
  then show False by simp
qed

lemma unchanged_by_refl: "unchanged_by w w"
  by (simp add: unchanged_by_def)

lemma unchanged_by_trans:
  assumes "unchanged_by a b" "unchanged_by b c"
  shows "unchanged_by a c"
proof -
  have p1: "prefix (events a) (events b)" and p2: "prefix (events b) (events c)"
    using assms by (simp_all add: unchanged_by_def)
  have "new_events a c = new_events a b @ new_events b c"
    using p1 p2 by (rule new_events_append)
  moreover have "prefix (events a) (events c)"
    using p1 p2 by (rule prefix_order.trans)
  ultimately show ?thesis
    using assms by (simp add: unchanged_by_def)
qed

lemma unchanged_by_info: "\<not> is_move_event e \<Longrightarrow> unchanged_by w (info e w)"
  by (simp add: unchanged_by_def)

lemma foldl_rel:
  assumes refl: "\<And>w. R w w"
    and trans: "\<And>a b c. R a b \<Longrightarrow> R b c \<Longrightarrow> R a c"
    and step: "\<And>w x. x \<in> set xs \<Longrightarrow> R w (f w x)"
  shows "R w (foldl f w xs)"
  using step
proof (induction xs arbitrary: w)
  case Nil
  show ?case by (simp add: refl)
next
  case (Cons x xs)
  have "R w (f w x)" using Cons.prems by simp
  moreover have "R (f w x) (foldl f (f w x) xs)"
    using Cons.IH Cons.prems by simp
  ultimately show ?case
    using trans by fastforce
qed

subsection \<open>The body of the file loop of \<open>run_scan\<close>\<close>

lemma scan_file_unselected:
  "lower (snd (splitext (fname f))) \<notin> SELECTED_EXTS loc \<Longrightarrow> scan_file env cfg loc r w f = w"
  by (simp add: scan_file_def Let_def)



lemma scan_file_old_dry:
  assumes "lower (snd (splitext (fname f))) \<in> SELECTED_EXTS loc" "getmtime f = Mtime m"
    and "m < cutoff_epoch loc" "cfg_dry_run cfg"
  shows "scan_file env cfg loc r w f
           = info (MATCH (path_join r (fname f)) \<lfloor>(clock f - m) / 86400\<rfloor>) w"
  using assms by (simp add: scan_file_def Let_def)


lemma scan_file_prefix: "prefix (events w) (events (scan_file env cfg loc r w f))"
  by (simp add: scan_file_def Let_def split: stat_res.splits sum.splits move_res.splits)

lemma scan_file_dry: "cfg_dry_run cfg \<Longrightarrow> unchanged_by w (scan_file env cfg loc r w f)"
  by (simp add: scan_file_def Let_def unchanged_by_def split: stat_res.splits)


lemma walk_dry:
  "cfg_dry_run cfg \<Longrightarrow> unchanged_by w (walk env cfg loc r t w)"
proof (induction env cfg loc r t w rule: walk.induct)
  case (1 env cfg loc rootdir files dirs w)
  let ?kept = "filter (\<lambda>(d, t). \<not> should_exclude_dir (os_abspath env)
                                    (path_join rootdir d) (EXCLUDE_DIRS loc)) dirs"
  let ?w1 = "info (SCAN rootdir) w"
  let ?w2 = "foldl (scan_file env cfg loc rootdir) ?w1 files"
  have a: "unchanged_by w ?w1"
    by (simp add: unchanged_by_info)
  have b: "unchanged_by ?w1 ?w2"
    by (rule foldl_rel [where R = unchanged_by])
       (auto intro: unchanged_by_refl unchanged_by_trans scan_file_dry [OF "1.prems"])
  have c: "unchanged_by ?w2
             (foldl (\<lambda>w' (d, t). walk env cfg loc (path_join rootdir d) t w') ?w2 ?kept)"
  proof (rule foldl_rel [where R = unchanged_by])
    fix w' x
    assume x: "x \<in> set ?kept"
    obtain d t where dt: "x = (d, t)" by (cases x)
    have "unchanged_by w' (walk env cfg loc (path_join rootdir d) t w')"
      using "1.IH" [OF refl refl refl x dt [symmetric] "1.prems"] .
    then show "unchanged_by w' (case x of (d, t) \<Rightarrow> walk env cfg loc (path_join rootdir d) t w')"
      by (simp add: dt)
  qed (auto intro: unchanged_by_refl unchanged_by_trans)
  show ?case
    using unchanged_by_trans [OF unchanged_by_trans [OF a b] c] by (simp add: Let_def)
qed

lemma scan_drives_dry:
  assumes "cfg_dry_run cfg"
  shows "unchanged_by w (scan_drives env cfg loc w)"
  unfolding scan_drives_def
proof (rule foldl_rel [where R = unchanged_by])
  fix w' x
  assume "x \<in> set (os_drives env)"
  obtain d t where dt: "x = (d, t)" by (cases x)
  show "unchanged_by w' (case x of (drive, t) \<Rightarrow> walk env cfg loc drive t w')"
    using walk_dry [OF assms] by (simp add: dt)
qed (auto intro: unchanged_by_refl unchanged_by_trans)

subsection \<open>Lower case\<close>

lemma of_char_lower_chr:
  "(of_char (lower_chr c) :: nat) =
     (if 65 \<le> (of_char c :: nat) \<and> (of_char c :: nat) \<le> 90 then of_char c + 32 else of_char c)"
  by (simp add: lower_chr_def Let_def)

lemma lower_chr_idem [simp]: "lower_chr (lower_chr c) = lower_chr c"
proof -
  have "(of_char (lower_chr (lower_chr c)) :: nat) = of_char (lower_chr c)"
    by (simp add: of_char_lower_chr)
  then show ?thesis by (simp only: of_char_eq_iff)
qed

lemma lower_Nil [simp]: "lower [] = []"
  by (simp add: lower_def)

lemma lower_idem [simp]: "lower (lower s) = lower s"
  by (simp add: lower_def)

lemma length_lower [simp]: "length (lower s) = length s"
  by (simp add: lower_def)

lemma lower_chr_eq_nonletter:
  assumes "\<not> (65 \<le> (of_char x :: nat) \<and> (of_char x :: nat) \<le> 90)"
    and "\<not> (97 \<le> (of_char x :: nat) \<and> (of_char x :: nat) \<le> 122)"
  shows "lower_chr c = x \<longleftrightarrow> c = x"
proof
  assume "lower_chr c = x"
  then have "(of_char (lower_chr c) :: nat) = of_char x" by simp
  then have "(of_char c :: nat) = of_char x"
    using assms by (simp add: of_char_lower_chr split: if_splits)
  then show "c = x" by (simp only: of_char_eq_iff)
next
  assume "c = x"
  then show "lower_chr c = x"
    using assms by (auto simp: lower_chr_def Let_def)
qed

lemma lower_chr_sep [simp]: "lower_chr c = sep \<longleftrightarrow> c = sep"
  by (rule lower_chr_eq_nonletter) (simp_all add: sep_def)

lemma lower_chr_altsep [simp]: "lower_chr c = altsep \<longleftrightarrow> c = altsep"
  by (rule lower_chr_eq_nonletter) (simp_all add: altsep_def)

lemma lower_chr_extsep [simp]: "lower_chr c = extsep \<longleftrightarrow> c = extsep"
  by (rule lower_chr_eq_nonletter) (simp_all add: extsep_def)

lemma lower_chr_colon [simp]: "lower_chr c = colon \<longleftrightarrow> c = colon"
  by (rule lower_chr_eq_nonletter) (simp_all add: colon_def)








subsection \<open>The body of the file loop of \<open>purge_files\<close>\<close>

lemma purge_file_skipped:
  "extensions \<noteq> [] \<Longrightarrow> \<not> endswith_any (lower (fname f)) extensions \<Longrightarrow>
     purge_file env now extensions rd dr drive r w f = w"
  by (simp add: purge_file_def Let_def)


lemma age_ge_iff:
  "(rd \<le> \<lfloor>(now - m) / 86400\<rfloor>) \<longleftrightarrow> m \<le> now - of_int rd * (86400 :: real)"
proof -
  have "(rd \<le> \<lfloor>(now - m) / 86400\<rfloor>) \<longleftrightarrow> of_int rd \<le> (now - m) / 86400"
    by (rule le_floor_iff)
  also have "\<dots> \<longleftrightarrow> of_int rd * 86400 \<le> now - m"
    by (simp add: pos_le_divide_eq)
  also have "\<dots> \<longleftrightarrow> m \<le> now - of_int rd * 86400"
    by linarith
  finally show ?thesis .
qed


lemma purge_file_old_dry:
  assumes "extensions = [] \<or> endswith_any (lower (fname f)) extensions" "getmtime f = Mtime m"
    and "m \<le> now - of_int rd * 86400"
  shows "purge_file env now extensions rd True drive r w f
           = info (MATCH (path_join r (fname f)) \<lfloor>(now - m) / 86400\<rfloor>) w"
  using assms by (auto simp: purge_file_def Let_def age_ge_iff)


lemma purge_file_dry: "unchanged_by w (purge_file env now extensions rd True drive r w f)"
  by (simp add: purge_file_def Let_def unchanged_by_def split: stat_res.splits)

subsection \<open>\<open>is_excluded\<close> never raises\<close>

lemma common_len_le: "s1 \<le> s2 \<Longrightarrow> common_len s1 s2 \<noteq> None"
  for s1 s2 :: "('a :: linorder) list"
  by (induction s1 s2 rule: common_len.induct) auto

lemma commonpath_error: "commonpath p q = Inl e \<Longrightarrow> e = ValueError"
proof -
  assume a: "commonpath p q = Inl e"
  obtain d1 r1 where s1: "splitdrive (lower (replace_chr altsep sep p)) = (d1, r1)"
    by (cases "splitdrive (lower (replace_chr altsep sep p))")
  obtain d2 r2 where s2: "splitdrive (lower (replace_chr altsep sep q)) = (d2, r2)"
    by (cases "splitdrive (lower (replace_chr altsep sep q))")
  have "min (components r1) (components r2) \<le> max (components r1) (components r2)"
    by (simp add: min_le_iff_disj le_max_iff_disj)
  then have "common_len (min (components r1) (components r2))
               (max (components r1) (components r2)) \<noteq> None"
    by (rule common_len_le)
  then obtain i where "common_len (min (components r1) (components r2))
                         (max (components r1) (components r2)) = Some i"
    by auto
  then show ?thesis
    using a s1 s2
    by (auto simp: commonpath_def Let_def split: prod.splits if_splits)
qed

lemma is_excluded_in_total: "\<exists>b. is_excluded_in p xs = Inr b"
proof (induction xs)
  case Nil
  show ?case by auto
next
  case (Cons x xs)
  show ?case
  proof (cases "commonpath p x")
    case (Inl e)
    then have "e = ValueError" by (rule commonpath_error)
    then show ?thesis using Inl Cons.IH by simp
  next
    case (Inr cp)
    then show ?thesis using Cons.IH by auto
  qed
qed

lemma is_excluded_total: "\<exists>b. is_excluded ap p = Inr b"
  by (simp add: is_excluded_def is_excluded_in_total)

lemma purge_walk_total_dry:
  "dr \<Longrightarrow> \<exists>w'. purge_walk env now exts rd dr drive r t w = Inr w' \<and> unchanged_by w w'"
  "dr \<Longrightarrow> \<exists>w'. purge_walks env now exts rd dr drive r ts w = Inr w' \<and> unchanged_by w w'"
proof (induction env now exts rd dr drive r t w and env now exts rd dr drive r ts w
       rule: purge_walk_purge_walks.induct)
  case (1 env now extensions retention_days dry_run drive rootdir files dirs w)
  let ?w2 = "foldl (purge_file env now extensions retention_days dry_run drive rootdir) w files"
  have b: "unchanged_by w ?w2"
    using "1.prems"
    by (intro foldl_rel [where R = unchanged_by])
       (auto intro: unchanged_by_refl unchanged_by_trans purge_file_dry)
  obtain ex where ex: "is_excluded (os_abspath env) rootdir = Inr ex"
    using is_excluded_total by blast
  show ?case
  proof (cases ex)
    case True
    then show ?thesis using ex by (simp add: unchanged_by_refl)
  next
    case False
    then have exF: "ex = False" by simp
    obtain w' where w': "purge_walks env now extensions retention_days dry_run drive rootdir
                           dirs ?w2 = Inr w'" "unchanged_by ?w2 w'"
      using "1.IH" [OF ex exF "1.prems"] by blast
    then show ?thesis
      using ex False unchanged_by_trans [OF b w'(2)] by simp
  qed
next
  case (2 env now extensions retention_days dry_run drive rootdir w)
  show ?case by (simp add: unchanged_by_refl)
next
  case (3 env now extensions retention_days dry_run drive rootdir d t rest w)
  obtain w1 where w1: "purge_walk env now extensions retention_days dry_run drive
                         (path_join rootdir d) t w = Inr w1" "unchanged_by w w1"
    using "3.IH"(1) "3.prems" by blast
  obtain w2 where w2: "purge_walks env now extensions retention_days dry_run drive rootdir
                         rest w1 = Inr w2" "unchanged_by w1 w2"
    using "3.IH"(2) [OF w1(1) "3.prems"] by blast
  show ?case
    using w1 w2 unchanged_by_trans by auto
qed

lemma purge_drives_total_dry:
  "\<exists>w'. purge_drives env now exts rd True ds w = Inr w' \<and> unchanged_by w w'"
proof (induction ds arbitrary: w)
  case Nil
  show ?case by (simp add: unchanged_by_refl)
next
  case (Cons x ds)
  obtain drive t where x: "x = (drive, t)" by (cases x)
  obtain w1 where w1: "purge_walk env now exts rd True drive drive t w = Inr w1"
    "unchanged_by w w1"
    using purge_walk_total_dry(1) [of True] by blast
  obtain w2 where w2: "purge_drives env now exts rd True ds w1 = Inr w2" "unchanged_by w1 w2"
    using Cons.IH by blast
  show ?case
    using x w1 w2 unchanged_by_trans by auto
qed

subsection \<open>Qualification by age\<close>




subsection \<open>Dry runs\<close>

lemma run_scan_dry:
  assumes "cfg_dry_run cfg" "\<not> cfg_AutoDelete cfg"
  shows "unchanged_by w (fst (run_scan env cfg w))"
  using assms scan_drives_dry [OF assms(1)]
  by (simp add: run_scan_def Let_def unchanged_by_refl split: option.splits)

text \<open>
  C5.  With \<open>dry_run\<close> the traversal of \<open>run_scan\<close> leaves every file where it is and
  logs no \<open>MOVE\<close> line and no failed move, for the whole run too when the quarantine is
  not cleared afterwards, and a qualifying file produces its \<open>MATCH\<close> line and nothing
  else.  The same holds for \<open>purge_files\<close>, which also always returns.
\<close>

theorem dry_run_moves_nothing:
  "(cfg_dry_run cfg \<longrightarrow>
      unchanged_by w (scan_drives env cfg loc w)
      \<and> (\<not> cfg_AutoDelete cfg \<longrightarrow> unchanged_by w (fst (run_scan env cfg w)))
      \<and> (lower (snd (splitext (fname f))) \<in> SELECTED_EXTS loc \<and> getmtime f = Mtime mtime
           \<and> mtime < cutoff_epoch loc \<longrightarrow>
         scan_file env cfg loc rootdir w f
           = info (MATCH (path_join rootdir (fname f)) \<lfloor>(clock f - mtime) / 86400\<rfloor>) w))
   \<and> (\<exists>w'. purge_files env categories rd True w = Inr w' \<and> unchanged_by w w')
   \<and> ((extensions = [] \<or> endswith_any (lower (fname f)) extensions)
        \<and> getmtime f = Mtime mtime \<and> mtime \<le> now - of_int rd * 86400 \<longrightarrow>
      purge_file env now extensions rd True drive rootdir w f
        = info (MATCH (path_join rootdir (fname f)) \<lfloor>(now - mtime) / 86400\<rfloor>) w)"
proof (intro conjI impI)
  assume d: "cfg_dry_run cfg"
  show "unchanged_by w (scan_drives env cfg loc w)"
    using d by (rule scan_drives_dry)
  show "unchanged_by w (fst (run_scan env cfg w))" if "\<not> cfg_AutoDelete cfg"
    using d that by (rule run_scan_dry)
  show "scan_file env cfg loc rootdir w f
          = info (MATCH (path_join rootdir (fname f)) \<lfloor>(clock f - mtime) / 86400\<rfloor>) w"
    if "lower (snd (splitext (fname f))) \<in> SELECTED_EXTS loc \<and> getmtime f = Mtime mtime
          \<and> mtime < cutoff_epoch loc"
    using that d by (simp add: scan_file_old_dry)
next
  show "\<exists>w'. purge_files env categories rd True w = Inr w' \<and> unchanged_by w w'"
    unfolding purge_files_def by (rule purge_drives_total_dry)
next
  assume "(extensions = [] \<or> endswith_any (lower (fname f)) extensions)
            \<and> getmtime f = Mtime mtime \<and> mtime \<le> now - of_int rd * 86400"
  then show "purge_file env now extensions rd True drive rootdir w f
               = info (MATCH (path_join rootdir (fname f)) \<lfloor>(now - mtime) / 86400\<rfloor>) w"
    using purge_file_old_dry by blast
qed

text \<open>
  C5, witness: the dry run over the drive \<open>C:\<close> logs two directories, two matches and
  one skip, and the files present are the same as before.
\<close>

theorem dry_run_moves_nothing_witness:
  "cfg_dry_run demo_cfg_dry
   \<and> present (scan_drives demo_env demo_cfg_dry (scan_setup demo_env demo_cfg_dry [''.pdf''])
                demo_world) = present demo_world
   \<and> events (scan_drives demo_env demo_cfg_dry (scan_setup demo_env demo_cfg_dry [''.pdf''])
               demo_world)
       = [SCAN demo_drive, MATCH (demo_drive @ ''old.PDF'') 11, SKIP (demo_drive @ ''new.pdf'') 1,
          SCAN (demo_drive @ ''Users''),
          MATCH (demo_drive @ ''Users'' @ [sep] @ ''old.PDF'') 11]"
proof -
  have d: "cfg_dry_run demo_cfg_dry"
    by (simp add: demo_cfg_dry_def)
  from dry_run_moves_nothing [where cfg = demo_cfg_dry and w = demo_world and env = demo_env
         and loc = "scan_setup demo_env demo_cfg_dry [''.pdf'']"] d
  have "unchanged_by demo_world
          (scan_drives demo_env demo_cfg_dry (scan_setup demo_env demo_cfg_dry [''.pdf''])
             demo_world)"
    by blast
  then have p: "present (scan_drives demo_env demo_cfg_dry
                           (scan_setup demo_env demo_cfg_dry [''.pdf'']) demo_world)
                  = present demo_world"
    by (simp add: unchanged_by_def)
  have e: "events (scan_drives demo_env demo_cfg_dry (scan_setup demo_env demo_cfg_dry [''.pdf''])
               demo_world)
       = [SCAN demo_drive, MATCH (demo_drive @ ''old.PDF'') 11, SKIP (demo_drive @ ''new.pdf'') 1,
          SCAN (demo_drive @ ''Users''),
          MATCH (demo_drive @ ''Users'' @ [sep] @ ''old.PDF'') 11]"
    by code_simp
  show ?thesis using d p e by simp
qed

subsection \<open>The extension filter\<close>

lemma foldl_scan_file_keep:
  "foldl (scan_file env cfg loc r) w
         (filter (\<lambda>f. lower (snd (splitext (fname f))) \<in> SELECTED_EXTS loc) files)
     = foldl (scan_file env cfg loc r) w files"
  by (induction files arbitrary: w) (auto simp: scan_file_unselected)

lemma walk_keep_selected:
  "walk env cfg loc r (keep_selected (SELECTED_EXTS loc) t) w = walk env cfg loc r t w"
proof (induction env cfg loc r t w rule: walk.induct)
  case (1 env cfg loc rootdir files dirs w)
  let ?S = "SELECTED_EXTS loc"
  let ?P = "\<lambda>(d, t :: dir). \<not> should_exclude_dir (os_abspath env) (path_join rootdir d)
                                   (EXCLUDE_DIRS loc)"
  let ?k = "\<lambda>(d, t). (d, keep_selected ?S t)"
  let ?w2 = "foldl (scan_file env cfg loc rootdir) (info (SCAN rootdir) w) files"
  have f1: "filter ?P (map ?k dirs) = map ?k (filter ?P dirs)"
    by (induction dirs) auto
  have f2: "foldl (\<lambda>w' (d, t). walk env cfg loc (path_join rootdir d) t w') ?w2
                  (map ?k (filter ?P dirs))
              = foldl (\<lambda>w' (d, t). walk env cfg loc (path_join rootdir d) t w') ?w2
                  (filter ?P dirs)"
    unfolding foldl_map
  proof (rule foldl_cong [OF refl refl])
    fix a x
    assume x: "x \<in> set (filter ?P dirs)"
    obtain d t where dt: "x = (d, t)" by (cases x)
    have "walk env cfg loc (path_join rootdir d) (keep_selected ?S t) a
            = walk env cfg loc (path_join rootdir d) t a"
      using "1.IH" [OF refl refl refl x dt [symmetric]] .
    then show "(case ?k x of (d, t) \<Rightarrow> walk env cfg loc (path_join rootdir d) t a)
                 = (case x of (d, t) \<Rightarrow> walk env cfg loc (path_join rootdir d) t a)"
      by (simp add: dt)
  qed
  show ?case
    by (simp add: Let_def f1 f2 foldl_scan_file_keep)
qed

text \<open>
  C6, as amended.  In \<open>run_scan\<close> a file whose lower-cased extension is not in the
  selected set leaves the log and the state as they are, and the walk of a tree gives
  the same result as the walk of the tree without those files.  In \<open>purge_files\<close> a file
  is passed over in silence when the list of extensions is not empty and the lower-cased
  file name ends with none of them.
\<close>

theorem unselected_files_are_silent:
  "(lower (snd (splitext (fname f))) \<notin> SELECTED_EXTS loc \<longrightarrow>
      scan_file env cfg loc rootdir w f = w)
   \<and> walk env cfg loc rootdir (keep_selected (SELECTED_EXTS loc) t) w
       = walk env cfg loc rootdir t w
   \<and> (extensions \<noteq> [] \<and> \<not> endswith_any (lower (fname f)) extensions \<longrightarrow>
        purge_file env now extensions rd dr drive rootdir w f = w)"
  by (simp add: scan_file_unselected walk_keep_selected purge_file_skipped)

text \<open>
  C6, witness: \<open>x.exe\<close> is passed over by \<open>run_scan\<close> with the extension \<open>.pdf\<close> selected,
  and by \<open>purge_files\<close> with the category \<open>documents\<close>.
\<close>

theorem unselected_files_are_silent_witness:
  "lower (snd (splitext (fname demo_exe_file)))
     \<notin> SELECTED_EXTS (scan_setup demo_env demo_cfg [''.pdf''])
   \<and> scan_file demo_env demo_cfg (scan_setup demo_env demo_cfg [''.pdf'']) demo_drive demo_world
        demo_exe_file = demo_world
   \<and> category_extensions [''documents''] \<noteq> []
   \<and> purge_file demo_env 1000000 (category_extensions [''documents'']) 1 False demo_drive
        demo_drive demo_world demo_exe_file = demo_world"
proof -
  have a: "lower (snd (splitext (fname demo_exe_file)))
             \<notin> SELECTED_EXTS (scan_setup demo_env demo_cfg [''.pdf''])"
    by code_simp
  have b: "category_extensions [''documents''] \<noteq> []
             \<and> \<not> endswith_any (lower (fname demo_exe_file)) (category_extensions [''documents''])"
    by code_simp
  from unselected_files_are_silent
         [where f = demo_exe_file and loc = "scan_setup demo_env demo_cfg [''.pdf'']"
            and extensions = "category_extensions [''documents'']"] a b
  show ?thesis by blast
qed

text \<open>
  C6, counterexample to the claim as stated: with a category that is not configured the
  list of extensions of \<open>purge_files\<close> is empty, its filter is then switched off, and
  \<open>x.exe\<close>, whose extension is in no category, is logged as \<open>MATCH\<close>.
\<close>

theorem unknown_category_scans_every_file:
  "category_extensions [''music''] = []
   \<and> lower (snd (splitext (fname demo_exe_file))) = ''.exe''
   \<and> ''.exe'' \<notin> set (category_extensions [''all''])
   \<and> purge_file demo_env 1000000 (category_extensions [''music'']) 1 True demo_drive demo_drive
        demo_world demo_exe_file
       = info (MATCH (demo_drive @ ''x.exe'') 11) demo_world"
  by code_simp



lemma all_exts_lower: "e \<in> set (all_exts cats) \<Longrightarrow> lower e = e"
  by (auto simp: set_all_exts)



subsection \<open>Splitting and joining\<close>

lemma split_chr_nonempty [simp]: "split_chr c s \<noteq> []"
  by (induction s) (auto split: list.splits)

lemma split_chr_no_sep: "c \<notin> set x \<Longrightarrow> split_chr c x = [x]"
  by (induction x) auto

lemma split_chr_append: "c \<notin> set x \<Longrightarrow> split_chr c (x @ c # rest) = x # split_chr c rest"
  by (induction x) (auto split: list.splits)

lemma split_join:
  "xs \<noteq> [] \<Longrightarrow> \<forall>x \<in> set xs. c \<notin> set x \<Longrightarrow> split_chr c (join_chr c xs) = xs"
proof (induction c xs rule: join_chr.induct)
  case (1 c)
  then show ?case by simp
next
  case (2 c x)
  then show ?case by (simp add: split_chr_no_sep)
next
  case (3 c x y ys)
  then show ?case by (simp add: split_chr_append)
qed

lemma components_join:
  assumes "list_all valid_name names"
  shows "components (sep # join_chr sep names) = names"
proof (cases names)
  case Nil
  then show ?thesis by (simp add: components_def)
next
  case (Cons n ns)
  have v: "\<forall>x \<in> set names. sep \<notin> set x \<and> x \<noteq> [] \<and> x \<noteq> curdir"
    using assms by (auto simp: list_all_iff valid_name_def)
  then have "split_chr sep (join_chr sep names) = names"
    using Cons by (intro split_join) auto
  moreover have "filter (\<lambda>c. c \<noteq> [] \<and> c \<noteq> curdir) names = names"
    using v by (intro filter_True) auto
  ultimately show ?thesis
    by (simp add: components_def)
qed

lemma lower_append [simp]: "lower (a @ b) = lower a @ lower b"
  by (simp add: lower_def)

lemma lower_Cons [simp]: "lower (c # s) = lower_chr c # lower s"
  by (simp add: lower_def)

lemma lower_chr_sep_self [simp]: "lower_chr sep = sep"
  by simp

lemma lower_join: "lower (join_chr sep xs) = join_chr sep (map lower xs)"
  by (induction sep xs rule: join_chr.induct) simp_all

lemma set_lower_fixed:
  assumes "\<And>c. lower_chr c = x \<longleftrightarrow> c = x"
  shows "x \<in> set (lower s) \<longleftrightarrow> x \<in> set s"
proof -
  have "x \<in> set (lower s) \<longleftrightarrow> (\<exists>c \<in> set s. lower_chr c = x)"
    by (auto simp: lower_def)
  then show ?thesis by (simp add: assms)
qed

lemma set_lower_sep [simp]: "sep \<in> set (lower s) \<longleftrightarrow> sep \<in> set s"
  by (rule set_lower_fixed) simp

lemma set_lower_altsep [simp]: "altsep \<in> set (lower s) \<longleftrightarrow> altsep \<in> set s"
  by (rule set_lower_fixed) simp

lemma set_lower_colon [simp]: "colon \<in> set (lower s) \<longleftrightarrow> colon \<in> set s"
  by (rule set_lower_fixed) simp

lemma lower_eq_Nil [simp]: "lower s = [] \<longleftrightarrow> s = []"
  by (simp add: lower_def)

lemma lower_eq_curdir [simp]: "lower s = curdir \<longleftrightarrow> s = curdir"
proof -
  have "lower s = [extsep] \<longleftrightarrow> s = [extsep]"
    by (cases s) (auto simp: lower_def)
  then show ?thesis by (simp add: curdir_def extsep_def)
qed

lemma valid_name_lower [simp]: "valid_name (lower s) = valid_name s"
  by (simp add: valid_name_def)

lemma list_all_valid_lower: "list_all valid_name names \<Longrightarrow> list_all valid_name (map lower names)"
  by (simp add: list_all_iff)

lemma replace_chr_absent: "a \<notin> set s \<Longrightarrow> replace_chr a b s = s"
  by (induction s) (auto simp: replace_chr_def)

lemma set_join_chr: "set (join_chr c xs) \<subseteq> insert c (\<Union>(set ` set xs))"
  by (induction c xs rule: join_chr.induct) auto

lemma altsep_not_in_join:
  assumes "list_all valid_name names"
  shows "altsep \<notin> set (join_chr sep names)"
proof
  assume "altsep \<in> set (join_chr sep names)"
  then have "altsep = sep \<or> (\<exists>x \<in> set names. altsep \<in> set x)"
    using set_join_chr [of sep names] by auto
  then show False
    using assms by (auto simp: list_all_iff valid_name_def sep_def altsep_def)
qed

subsection \<open>Drives\<close>

lemma valid_driveE:
  assumes "valid_drive d"
  obtains a where "d = [a, colon]" "is_letter a"
proof -
  from assms have l: "length d = 2" and a: "is_letter (d ! 0)" and c: "d ! 1 = colon"
    by (simp_all add: valid_drive_def)
  from l obtain x y where d: "d = [x, y]"
    by (cases d; cases "tl d"; cases "tl (tl d)") auto
  with a c have "d = [x, colon]" "is_letter x" by simp_all
  then show ?thesis by (rule that)
qed

lemma letter_not_special:
  assumes "is_letter a"
  shows "a \<noteq> sep" "a \<noteq> altsep" "a \<noteq> colon"
  using assms by (auto simp: is_letter_def sep_def altsep_def colon_def Let_def)

lemma colon_not_sep [simp]: "colon \<noteq> sep" "colon \<noteq> altsep" "sep \<noteq> altsep" "sep \<noteq> colon"
  "altsep \<noteq> colon" "altsep \<noteq> sep"
  by (simp_all add: sep_def altsep_def colon_def)

lemma is_letter_lower: "is_letter a \<Longrightarrow> is_letter (lower_chr a)"
  by (auto simp: is_letter_def of_char_lower_chr Let_def)

lemma valid_drive_lower: "valid_drive d \<Longrightarrow> valid_drive (lower d)"
  by (erule valid_driveE) (simp add: valid_drive_def is_letter_lower)

lemma splitdrive_drive:
  assumes "valid_drive d"
  shows "splitdrive (d @ rest) = (d, rest)"
proof -
  from assms obtain a where d: "d = [a, colon]" by (rule valid_driveE)
  show ?thesis
    by (simp add: d splitdrive_def replace_chr_def)
qed




subsection \<open>Facts about canonical paths\<close>

lemma altsep_not_in_winpath:
  assumes "valid_drive d" "list_all valid_name names"
  shows "altsep \<notin> set (winpath d names)"
proof -
  from assms(1) obtain a where d: "d = [a, colon]" "is_letter a" by (rule valid_driveE)
  show ?thesis
    using altsep_not_in_join [OF assms(2)] letter_not_special(2) [OF d(2)]
    by (auto simp: winpath_def d)
qed

lemma replace_winpath:
  assumes "valid_drive d" "list_all valid_name names"
  shows "replace_chr altsep sep (winpath d names) = winpath d names"
  using altsep_not_in_winpath [OF assms] by (rule replace_chr_absent)

lemma lower_winpath: "lower (winpath d names) = winpath (lower d) (map lower names)"
  by (simp add: winpath_def lower_join)

lemma splitdrive_winpath:
  assumes "valid_drive d"
  shows "splitdrive (winpath d names) = (d, sep # join_chr sep names)"
  using splitdrive_drive [OF assms] by (simp add: winpath_def)

lemma same_drive_winpath:
  assumes "valid_drive d" "valid_drive e"
  shows "same_drive (winpath d ps) (winpath e qs) \<longleftrightarrow> lower d = lower e"
  using assms by (simp add: same_drive_def splitdrive_winpath)

lemma winpath_inject:
  assumes "valid_drive d" "valid_drive e" "list_all valid_name xs" "list_all valid_name ys"
  shows "winpath d xs = winpath e ys \<longleftrightarrow> d = e \<and> xs = ys"
proof
  assume eq: "winpath d xs = winpath e ys"
  have "length d = length e"
    using assms(1,2) by (simp add: valid_drive_def)
  then have de: "d = e" and r: "sep # join_chr sep xs = sep # join_chr sep ys"
    using eq by (simp_all add: winpath_def)
  have "components (sep # join_chr sep xs) = components (sep # join_chr sep ys)"
    using r by simp
  then have "xs = ys"
    using assms(3,4) by (simp add: components_join)
  with de show "d = e \<and> xs = ys" by simp
qed simp

subsection \<open>The common prefix\<close>

lemma common_len_lcp: "common_len a b = Some n \<Longrightarrow> n = lcp_len a b"
proof (induction a b arbitrary: n rule: common_len.induct)
  case (1 s2)
  then show ?case by simp
next
  case (2 c s1)
  then show ?case by simp
next
  case (3 c s1 d s2)
  then show ?case by (auto split: if_splits)
qed

lemma lcp_len_Nil [simp]: "lcp_len [] b = 0" "lcp_len a [] = 0"
  by (cases b; simp) (cases a; simp)

lemma lcp_len_commute: "lcp_len a b = lcp_len b a"
proof (induction a arbitrary: b)
  case Nil
  show ?case by simp
next
  case (Cons x a)
  show ?case by (cases b) (auto simp: Cons.IH)
qed

lemma common_len_min_max:
  fixes a b :: "('a :: linorder) list"
  shows "common_len (min a b) (max a b) = Some (lcp_len a b)"
proof -
  have "min a b \<le> max a b"
    by (simp add: min_le_iff_disj le_max_iff_disj)
  then obtain n where n: "common_len (min a b) (max a b) = Some n"
    using common_len_le by blast
  then have "n = lcp_len (min a b) (max a b)"
    by (rule common_len_lcp)
  also have "\<dots> = lcp_len a b"
    by (cases "a \<le> b") (simp_all add: min_def max_def lcp_len_commute)
  finally show ?thesis using n by simp
qed

lemma lcp_len_prefix: "lcp_len (a @ r) a = length a"
  by (induction a) simp_all

lemma take_lcp_iff: "take (lcp_len (map f ps) (map f qs)) ps = qs \<longleftrightarrow> prefix qs ps"
proof
  assume "take (lcp_len (map f ps) (map f qs)) ps = qs"
  then show "prefix qs ps"
    using take_is_prefix by metis
next
  assume "prefix qs ps"
  then obtain r where r: "ps = qs @ r" by (auto simp: prefix_def)
  have "lcp_len (map f ps) (map f qs) = length qs"
    using lcp_len_prefix [of "map f qs" "map f r"] by (simp add: r)
  then show "take (lcp_len (map f ps) (map f qs)) ps = qs"
    by (simp add: r)
qed

subsection \<open>\<open>commonpath\<close> and \<open>is_under\<close> on canonical paths\<close>

lemma commonpath_winpath:
  assumes "valid_drive d" "valid_drive e" "list_all valid_name ps" "list_all valid_name qs"
  shows "commonpath (winpath d ps) (winpath e qs) =
           (if lower d = lower e
            then Inr (winpath d (take (lcp_len (map lower ps) (map lower qs)) ps))
            else Inl ValueError)"
proof -
  have r1: "replace_chr altsep sep (winpath d ps) = winpath d ps"
    using assms(1,3) by (rule replace_winpath)
  have r2: "replace_chr altsep sep (winpath e qs) = winpath e qs"
    using assms(2,4) by (rule replace_winpath)
  have s1: "splitdrive (lower (winpath d ps)) = (lower d, sep # join_chr sep (map lower ps))"
    using valid_drive_lower [OF assms(1)] by (simp add: lower_winpath splitdrive_winpath)
  have s2: "splitdrive (lower (winpath e qs)) = (lower e, sep # join_chr sep (map lower qs))"
    using valid_drive_lower [OF assms(2)] by (simp add: lower_winpath splitdrive_winpath)
  have s3: "splitdrive (winpath d ps) = (d, sep # join_chr sep ps)"
    using assms(1) by (rule splitdrive_winpath)
  have c1: "components (sep # join_chr sep (map lower ps)) = map lower ps"
    using list_all_valid_lower [OF assms(3)] by (rule components_join)
  have c2: "components (sep # join_chr sep (map lower qs)) = map lower qs"
    using list_all_valid_lower [OF assms(4)] by (rule components_join)
  have c3: "components (sep # join_chr sep ps) = ps"
    using assms(3) by (rule components_join)
  have w: "d @ [sep] @ join_chr sep xs = winpath d xs" for xs
    by (simp add: winpath_def)
  show ?thesis
    by (simp add: commonpath_def r1 r2 s1 s2 s3 c1 c2 c3 common_len_min_max w
             del: append.simps)
qed

lemma is_under_winpath:
  assumes "valid_drive d" "valid_drive e" "list_all valid_name ps" "list_all valid_name qs"
    and "ap (winpath d ps) = winpath d ps" "ap (winpath e qs) = winpath e qs"
  shows "is_under ap (winpath d ps) (winpath e qs) \<longleftrightarrow> d = e \<and> prefix qs ps"
proof (cases "lower d = lower e")
  case False
  then have "d \<noteq> e" by auto
  then show ?thesis
    using False assms(1,2) by (simp add: is_under_def same_drive_winpath)
next
  case True
  let ?k = "lcp_len (map lower ps) (map lower qs)"
  have v: "list_all valid_name (take ?k ps)"
    using assms(3) by (auto simp: list_all_iff dest: in_set_takeD)
  have "is_under ap (winpath d ps) (winpath e qs)
          \<longleftrightarrow> winpath d (take ?k ps) = winpath e qs"
    using True assms(1,2)
    by (simp add: is_under_def same_drive_winpath assms(5,6)
                  commonpath_winpath [OF assms(1-4)])
  also have "\<dots> \<longleftrightarrow> d = e \<and> take ?k ps = qs"
    using assms(1,2) v assms(4) by (rule winpath_inject)
  also have "\<dots> \<longleftrightarrow> d = e \<and> prefix qs ps"
    by (simp add: take_lcp_iff)
  finally show ?thesis .
qed







text \<open>
  The final comparison of \<open>is_under\<close> is an equality of strings: an entry written with
  another letter case than the candidate is not matched, although \<open>same_drive\<close> and
  \<open>commonpath\<close> fold case.
\<close>

lemma is_under_compares_case:
  "same_drive (winpath ''C:'' [''Windows'']) (winpath ''c:'' [''Windows''])
   \<and> \<not> is_under (\<lambda>p. p) (winpath ''C:'' [''Windows'']) (winpath ''c:'' [''Windows''])
   \<and> \<not> is_under (\<lambda>p. p) (winpath ''C:'' [''WINDOWS'']) (winpath ''C:'' [''Windows''])"
  by code_simp

subsection \<open>Parsing canonical paths\<close>

lemma components_Nil [simp]: "components [] = []"
  by (simp add: components_def)

lemma components_join_plain:
  assumes "list_all valid_name names"
  shows "components (join_chr sep names) = names"
proof (cases names)
  case Nil
  then show ?thesis by simp
next
  case (Cons n ns)
  have v: "\<forall>x \<in> set names. sep \<notin> set x \<and> x \<noteq> [] \<and> x \<noteq> curdir"
    using assms by (auto simp: list_all_iff valid_name_def)
  then have "split_chr sep (join_chr sep names) = names"
    using Cons by (intro split_join) auto
  moreover have "filter (\<lambda>c. c \<noteq> [] \<and> c \<noteq> curdir) names = names"
    using v by (intro filter_True) auto
  ultimately show ?thesis
    by (simp add: components_def)
qed

lemma hd_join_chr:
  "names \<noteq> [] \<Longrightarrow> hd names \<noteq> [] \<Longrightarrow> hd (join_chr c names) = hd (hd names)"
  by (induction c names rule: join_chr.induct) auto

lemma join_chr_eq_Nil: "\<forall>x \<in> set names. x \<noteq> [] \<Longrightarrow> join_chr c names = [] \<longleftrightarrow> names = []"
  by (induction c names rule: join_chr.induct) auto

lemma dropWhile_sep_join:
  assumes "list_all valid_name names"
  shows "dropWhile (\<lambda>c. c = sep) (join_chr sep names) = join_chr sep names"
proof (cases names)
  case Nil
  then show ?thesis by simp
next
  case (Cons n ns)
  have n: "n \<noteq> []" "sep \<notin> set n"
    using assms Cons by (simp_all add: valid_name_def)
  then have "hd (join_chr sep names) = hd n"
    using Cons hd_join_chr [of names sep] by simp
  moreover have "hd n \<noteq> sep"
    using n by (cases n) auto
  moreover have "join_chr sep names \<noteq> []"
    using assms Cons join_chr_eq_Nil [of names sep]
    by (auto simp: list_all_iff valid_name_def)
  ultimately show ?thesis
    by (cases "join_chr sep names") auto
qed

lemma splitroot_drive:
  assumes "valid_drive d"
  shows "splitroot (d @ sep # rest) = (d, [sep], dropWhile (\<lambda>c. c = sep) rest)"
proof -
  from assms obtain a where d: "d = [a, colon]" "is_letter a" by (rule valid_driveE)
  show ?thesis
    by (simp add: d splitroot_def)
qed

lemma parse_winpath:
  assumes "valid_drive d" "list_all valid_name names"
  shows "parse_path (winpath d names) = \<lparr>p_drv = d, p_root = [sep], p_parts = names\<rparr>"
proof -
  have "replace_chr altsep sep (winpath d names) = winpath d names"
    using assms by (rule replace_winpath)
  moreover have "splitroot (winpath d names) = (d, [sep], join_chr sep names)"
    using splitroot_drive [OF assms(1)] dropWhile_sep_join [OF assms(2)]
    by (simp add: winpath_def)
  ultimately show ?thesis
    using components_join_plain [OF assms(2)] by (simp add: parse_path_def)
qed

lemma parse_drive_root:
  assumes "valid_drive d"
  shows "parse_path (d @ [sep]) = \<lparr>p_drv = d, p_root = [sep], p_parts = []\<rparr>"
  using parse_winpath [OF assms, of "[]"] by (simp add: winpath_def)

lemma parse_root: "parse_path [sep] = \<lparr>p_drv = [], p_root = [sep], p_parts = []\<rparr>"
  by (simp add: parse_path_def splitroot_def replace_chr_def)

lemma parse_valid_name:
  assumes "valid_name n"
  shows "parse_path n = \<lparr>p_drv = [], p_root = [], p_parts = [n]\<rparr>"
proof -
  have n: "n \<noteq> []" "n \<noteq> curdir" "sep \<notin> set n" "altsep \<notin> set n" "colon \<notin> set n"
    using assms by (simp_all add: valid_name_def)
  have r: "replace_chr altsep sep n = n"
    using n(4) by (rule replace_chr_absent)
  have "take 1 (drop 1 n) \<noteq> [colon]"
  proof
    assume "take 1 (drop 1 n) = [colon]"
    then have "colon \<in> set (take 1 (drop 1 n))" by simp
    then have "colon \<in> set n"
      by (meson in_set_dropD in_set_takeD)
    then show False using n(5) by simp
  qed
  moreover have "take 1 n \<noteq> [sep]"
    using n(1,3) by (cases n) auto
  ultimately have "splitroot n = ([], [], n)"
    by (simp add: splitroot_def)
  moreover have "components n = [n]"
    using n by (simp add: components_def split_chr_no_sep)
  ultimately show ?thesis
    by (simp add: parse_path_def r)
qed

subsection \<open>The destination of \<open>auto_purge.py\<close>\<close>

lemma set_replace_chr: "set (replace_chr a b s) \<subseteq> insert b (set s)"
  by (auto simp: replace_chr_def)

lemma colon_not_in_join:
  assumes "list_all valid_name names"
  shows "colon \<notin> set (join_chr sep names)"
proof
  assume "colon \<in> set (join_chr sep names)"
  then have "colon = sep \<or> (\<exists>x \<in> set names. colon \<in> set x)"
    using set_join_chr [of sep names] by auto
  then show False
    using assms by (auto simp: list_all_iff valid_name_def)
qed

lemma splitdrive_no_colon:
  assumes "colon \<notin> set s"
  shows "splitdrive s = ([], s)"
proof -
  have "take 1 (drop 1 (replace_chr altsep sep s)) \<noteq> [colon]"
  proof
    assume "take 1 (drop 1 (replace_chr altsep sep s)) = [colon]"
    then have "colon \<in> set (take 1 (drop 1 (replace_chr altsep sep s)))" by simp
    then have "colon \<in> set (replace_chr altsep sep s)"
      by (meson in_set_dropD in_set_takeD)
    then show False
      using set_replace_chr [of altsep sep s] assms by auto
  qed
  then show ?thesis by (simp add: splitdrive_def)
qed

lemma valid_name_letter: "is_letter a \<Longrightarrow> valid_name [a]"
  by (auto simp: valid_name_def is_letter_def curdir_def sep_def altsep_def colon_def Let_def)

lemma valid_name_ROOT: "valid_name ''ROOT''"
  by code_simp

lemma valid_name_volume_tag:
  assumes "p_drv src = [] \<or> valid_drive (p_drv src)"
  shows "valid_name (volume_tag src)"
proof (cases "p_drv src = []")
  case True
  then show ?thesis by (simp add: volume_tag_def valid_name_ROOT)
next
  case False
  then have "valid_drive (p_drv src)" using assms by simp
  then obtain a where a: "p_drv src = [a, colon]" "is_letter a" by (rule valid_driveE)
  have "a \<noteq> colon" using a(2) by (rule letter_not_special)
  then show ?thesis
    using a by (simp add: volume_tag_def valid_name_letter)
qed

lemma set_pp_name:
  assumes "list_all valid_name (p_parts src)"
  shows "sep \<notin> set (pp_name src)" "altsep \<notin> set (pp_name src)" "colon \<notin> set (pp_name src)"
proof -
  have "pp_name src = [] \<or> valid_name (pp_name src)"
    using assms by (auto simp: pp_name_def list_all_iff)
  then show "sep \<notin> set (pp_name src)" "altsep \<notin> set (pp_name src)"
    "colon \<notin> set (pp_name src)"
    by (auto simp: valid_name_def)
qed

lemma set_pp_stem: "set (pp_stem src) \<subseteq> set (pp_name src)"
  by (auto simp: pp_stem_def Let_def dest: in_set_takeD)

lemma set_pp_suffix: "set (pp_suffix src) \<subseteq> set (pp_name src)"
  by (auto simp: pp_suffix_def Let_def dest: in_set_dropD)

lemma stem_suffix: "pp_stem src @ pp_suffix src = pp_name src"
  by (simp add: pp_stem_def pp_suffix_def Let_def)

lemma hexdigits_plain: "sep \<notin> hexdigits" "altsep \<notin> hexdigits" "colon \<notin> hexdigits"
  by (simp_all add: hexdigits_def sep_def altsep_def colon_def)

lemma valid_quarantine_name:
  assumes "list_all valid_name (p_parts src)" "set h \<subseteq> hexdigits"
  shows "valid_name (pp_stem src @ ''__'' @ take 8 h @ pp_suffix src)"
proof -
  let ?n = "pp_stem src @ ''__'' @ take 8 h @ pp_suffix src"
  have t: "set (take 8 h) \<subseteq> hexdigits"
    using assms(2) by (auto dest: in_set_takeD)
  have u: "sep \<noteq> CHR ''_''" "altsep \<noteq> CHR ''_''" "colon \<noteq> CHR ''_''"
    by (simp_all add: sep_def altsep_def colon_def)
  have "sep \<notin> set ?n" "altsep \<notin> set ?n" "colon \<notin> set ?n"
    using set_pp_name [OF assms(1)] set_pp_stem [of src] set_pp_suffix [of src] t
      hexdigits_plain u
    by auto
  moreover have "length ?n \<ge> 2" by simp
  then have "?n \<noteq> []" "?n \<noteq> curdir"
    by (auto simp: curdir_def)
  ultimately show ?thesis
    by (simp add: valid_name_def)
qed

lemma str_of_rooted:
  assumes "p_root src = [sep]"
  shows "str_of src = p_drv src @ sep # join_chr sep (p_parts src)"
  using assms by (simp add: str_of_def)

lemma splitdrive_str_of_rooted:
  assumes "p_drv src = [] \<or> valid_drive (p_drv src)" "p_root src = [sep]"
    and "list_all valid_name (p_parts src)"
  shows "fst (splitdrive (str_of src)) = p_drv src"
proof (cases "p_drv src = []")
  case True
  have "colon \<notin> set (sep # join_chr sep (p_parts src))"
    using colon_not_in_join [OF assms(3)] by simp
  then have "splitdrive (sep # join_chr sep (p_parts src))
               = ([], sep # join_chr sep (p_parts src))"
    by (rule splitdrive_no_colon)
  then show ?thesis
    using True by (simp add: str_of_rooted [OF assms(2)])
next
  case False
  then have "valid_drive (p_drv src)" using assms(1) by simp
  then show ?thesis
    by (simp add: str_of_rooted [OF assms(2)] splitdrive_drive)
qed

lemma parse_anchor:
  assumes "d = [] \<or> valid_drive d"
  shows "parse_path (d @ [sep]) = \<lparr>p_drv = d, p_root = [sep], p_parts = []\<rparr>"
  using assms parse_root parse_drive_root by auto

lemma relative_to_anchor:
  assumes "p_root src = [sep]"
  shows "relative_to src \<lparr>p_drv = p_drv src, p_root = [sep], p_parts = []\<rparr>
           = Inr \<lparr>p_drv = [], p_root = [], p_parts = p_parts src\<rparr>"
  using assms by (simp add: relative_to_def abs_parts_def)

lemma pp_join_relative:
  "pp_join p \<lparr>p_drv = [], p_root = [], p_parts = xs\<rparr> = p\<lparr>p_parts := p_parts p @ xs\<rparr>"
  by (simp add: pp_join_def)

lemma pp_parent_relative:
  "pp_parent \<lparr>p_drv = [], p_root = [], p_parts = xs\<rparr>
     = \<lparr>p_drv = [], p_root = [], p_parts = butlast xs\<rparr>"
  by (simp add: pp_parent_def)

lemma volume_tag_drive_letter:
  assumes "p_drv src = [] \<or> valid_drive (p_drv src)"
  shows "(let stripped = filter (\<lambda>c. c \<noteq> colon) (p_drv src)
          in if stripped = [] then ''ROOT'' else stripped) = volume_tag src"
proof (cases "p_drv src = []")
  case True
  then show ?thesis by (simp add: volume_tag_def)
next
  case False
  then have "valid_drive (p_drv src)" using assms by simp
  then obtain a where a: "p_drv src = [a, colon]" "is_letter a" by (rule valid_driveE)
  have "a \<noteq> colon" using a(2) by (rule letter_not_special)
  then show ?thesis
    using a by (simp add: volume_tag_def)
qed

lemma build_quarantine_dest_rooted:
  assumes drv: "p_drv src = [] \<or> valid_drive (p_drv src)"
    and root: "p_root src = [sep]"
    and parts: "list_all valid_name (p_parts src)"
    and hex: "set (digest (str_of src)) \<subseteq> hexdigits"
  shows "build_quarantine_dest digest q src = Inr (quarantine_destination digest q src)"
proof -
  let ?name = "pp_stem src @ ''__'' @ take 8 (digest (str_of src)) @ pp_suffix src"
  have d: "fst (splitdrive (str_of src)) = p_drv src"
    using drv root parts by (rule splitdrive_str_of_rooted)
  have a: "parse_path (p_drv src @ [sep]) = \<lparr>p_drv = p_drv src, p_root = [sep], p_parts = []\<rparr>"
    using drv by (rule parse_anchor)
  have r: "relative_to src (parse_path (p_drv src @ [sep]))
             = Inr \<lparr>p_drv = [], p_root = [], p_parts = p_parts src\<rparr>"
    unfolding a using root by (rule relative_to_anchor)
  have t: "parse_path (volume_tag src) = \<lparr>p_drv = [], p_root = [], p_parts = [volume_tag src]\<rparr>"
    using valid_name_volume_tag [OF drv] by (rule parse_valid_name)
  have n: "parse_path ?name = \<lparr>p_drv = [], p_root = [], p_parts = [?name]\<rparr>"
    using valid_quarantine_name [OF parts hex] by (rule parse_valid_name)
  have n': "parse_path (pp_stem src @ CHR ''_'' # CHR ''_'' # take 8 (digest (str_of src))
                          @ pp_suffix src)
              = \<lparr>p_drv = [], p_root = [], p_parts = [?name]\<rparr>"
    using n by simp
  show ?thesis
    using volume_tag_drive_letter [OF drv]
    by (simp add: build_quarantine_dest_def d r t n' short_hash_def Let_def
                  pp_parent_relative pp_join_relative quarantine_destination_def)
qed

lemma build_quarantine_dest_unrooted:
  assumes drv: "p_drv src = [] \<or> valid_drive (p_drv src)"
    and root: "p_root src = []"
    and parts: "list_all valid_name (p_parts src)"
  shows "build_quarantine_dest digest q src = Inl ValueError"
proof -
  have d: "fst (splitdrive (str_of src)) = p_drv src"
  proof (cases "p_drv src = []")
    case True
    have "colon \<notin> set (str_of src)"
      using colon_not_in_join [OF parts] True root
      by (simp add: str_of_def Let_def curdir_def colon_def)
    then show ?thesis
      using True by (simp add: splitdrive_no_colon)
  next
    case False
    then have v: "valid_drive (p_drv src)" using drv by simp
    have "str_of src = p_drv src @ join_chr sep (p_parts src)"
      using False root by (simp add: str_of_def Let_def)
    then show ?thesis
      by (simp add: splitdrive_drive [OF v])
  qed
  have a: "parse_path (p_drv src @ [sep]) = \<lparr>p_drv = p_drv src, p_root = [sep], p_parts = []\<rparr>"
    using drv by (rule parse_anchor)
  have h: "lower x \<noteq> [sep]" "lower x \<noteq> []" if "x \<in> set (p_parts src)" for x
  proof -
    have x: "x \<noteq> []" "sep \<notin> set x"
      using that parts by (auto simp: list_all_iff valid_name_def)
    show "lower x \<noteq> []" using x(1) by simp
    show "lower x \<noteq> [sep]"
    proof
      assume "lower x = [sep]"
      then have "sep \<in> set (lower x)" by simp
      then show False using x(2) by simp
    qed
  qed
  have "map lower (take 2 (abs_parts src)) \<noteq> [lower (p_drv src), [sep]]"
  proof (cases "p_parts src")
    case Nil
    then show ?thesis using root by (simp add: abs_parts_def)
  next
    case (Cons x xs)
    then have "x \<in> set (p_parts src)" by simp
    then show ?thesis
      using h [of x] Cons root by (cases xs) (auto simp: abs_parts_def)
  qed
  moreover have "abs_parts \<lparr>p_drv = p_drv src, p_root = [sep], p_parts = []\<rparr>
                   = [p_drv src, [sep]]"
    by (simp add: abs_parts_def)
  ultimately have "relative_to src (parse_path (p_drv src @ [sep])) = Inl ValueError"
    by (simp add: a relative_to_def numeral_2_eq_2)
  then show ?thesis
    by (simp add: build_quarantine_dest_def d Let_def)
qed

subsection \<open>The destination of \<open>safe_purge.py\<close>\<close>

lemma splitdrive_drive_colon:
  assumes "splitdrive x = (rd, rp)" "rd \<noteq> []"
  shows "last rd = colon"
proof -
  have c: "2 \<le> length x" "take 1 (drop 1 (replace_chr altsep sep x)) = [colon]"
    and rd: "rd = take 2 x"
    using assms by (auto simp: splitdrive_def split: if_splits)
  from c(1) obtain a b r where x: "x = a # b # r"
    by (cases x; cases "tl x") auto
  have "b = colon"
    using c(2) by (auto simp: x replace_chr_def split: if_splits)
  then show ?thesis by (simp add: rd x)
qed

lemma path_join_relative:
  assumes "colon \<notin> set p" "p \<noteq> []" "hd p \<notin> seps"
  shows "path_join path p =
           (case splitdrive path of
              (rd, rp) \<Rightarrow> rd @ (if rp \<noteq> [] \<and> last rp \<notin> seps then rp @ [sep] else rp) @ p)"
proof -
  obtain rd rp where sp: "splitdrive path = (rd, rp)" by (cases "splitdrive path")
  have p: "splitdrive p = ([], p)"
    using assms(1) by (rule splitdrive_no_colon)
  have "rd \<noteq> [] \<Longrightarrow> last rd = colon"
    using sp by (rule splitdrive_drive_colon)
  then show ?thesis
    using assms(2,3) by (auto simp: path_join_def sp p Let_def)
qed

lemma join_chr_nonempty:
  "names \<noteq> [] \<Longrightarrow> last names \<noteq> [] \<Longrightarrow> join_chr c names \<noteq> []"
  by (induction c names rule: join_chr.induct) auto

lemma last_join_chr:
  "names \<noteq> [] \<Longrightarrow> last names \<noteq> [] \<Longrightarrow> last (join_chr c names) = last (last names)"
proof (induction c names rule: join_chr.induct)
  case (1 c)
  then show ?case by simp
next
  case (2 c x)
  then show ?case by simp
next
  case (3 c x y ys)
  have "join_chr c (y # ys) \<noteq> []"
    using "3.prems" by (intro join_chr_nonempty) simp_all
  then show ?case using 3 by simp
qed

lemma join_chr_append:
  "xs \<noteq> [] \<Longrightarrow> ys \<noteq> [] \<Longrightarrow> join_chr c (xs @ ys) = join_chr c xs @ c # join_chr c ys"
proof (induction c xs rule: join_chr.induct)
  case (1 c)
  then show ?case by simp
next
  case (2 c x)
  then show ?case by (cases ys) simp_all
next
  case (3 c x y ys')
  then show ?case by simp
qed

lemma valid_name_ends:
  assumes "valid_name n"
  shows "n \<noteq> []" "hd n \<notin> seps" "last n \<notin> seps" "colon \<notin> set n"
proof -
  have n: "n \<noteq> []" "sep \<notin> set n" "altsep \<notin> set n" "colon \<notin> set n"
    using assms by (simp_all add: valid_name_def)
  show "n \<noteq> []" "colon \<notin> set n" by (fact n)+
  have "hd n \<in> set n" "last n \<in> set n"
    using n(1) by simp_all
  then show "hd n \<notin> seps" "last n \<notin> seps"
    using n(2,3) by (auto simp: seps_def)
qed

lemma join_valid_ends:
  assumes "list_all valid_name names" "names \<noteq> []"
  shows "join_chr sep names \<noteq> []" "hd (join_chr sep names) \<notin> seps"
    "last (join_chr sep names) \<notin> seps" "colon \<notin> set (join_chr sep names)"
proof -
  have h: "valid_name (hd names)" and l: "valid_name (last names)"
    using assms by (auto simp: list_all_iff)
  show "join_chr sep names \<noteq> []"
    using assms join_chr_eq_Nil [of names sep] by (auto simp: list_all_iff valid_name_def)
  show "hd (join_chr sep names) \<notin> seps"
    using hd_join_chr [of names sep] assms(2) valid_name_ends [OF h] by simp
  show "last (join_chr sep names) \<notin> seps"
    using last_join_chr [of names sep] assms(2) valid_name_ends [OF l] by simp
  show "colon \<notin> set (join_chr sep names)"
    using assms(1) by (rule colon_not_in_join)
qed

lemma path_join_winpath:
  assumes "valid_drive d" "list_all valid_name names" "list_all valid_name ms" "ms \<noteq> []"
  shows "path_join (winpath d names) (join_chr sep ms) = winpath d (names @ ms)"
proof -
  note m = join_valid_ends [OF assms(3,4)]
  have sp: "splitdrive (winpath d names) = (d, sep # join_chr sep names)"
    using assms(1) by (rule splitdrive_winpath)
  show ?thesis
  proof (cases "names = []")
    case True
    have "splitdrive (d @ [sep]) = (d, [sep])"
      using assms(1) by (rule splitdrive_drive)
    then have "path_join (d @ [sep]) (join_chr sep ms) = d @ [sep] @ join_chr sep ms"
      by (simp add: path_join_relative [OF m(4) m(1) m(2)] seps_def)
    then show ?thesis
      using True by (simp add: winpath_def)
  next
    case False
    have "last (join_chr sep names) \<notin> seps"
      using assms(2) False by (rule join_valid_ends)
    moreover have "join_chr sep names \<noteq> []"
      using assms(2) False by (rule join_valid_ends)
    ultimately have "path_join (winpath d names) (join_chr sep ms)
                       = d @ (sep # join_chr sep names) @ [sep] @ join_chr sep ms"
      by (simp add: path_join_relative [OF m(4) m(1) m(2)] sp)
    then show ?thesis
      using False assms(4) by (simp add: winpath_def join_chr_append)
  qed
qed

lemma path_join_winpath_name:
  assumes "valid_drive d" "list_all valid_name names" "valid_name n"
  shows "path_join (winpath d names) n = winpath d (names @ [n])"
  using path_join_winpath [OF assms(1,2), of "[n]"] assms(3) by simp

lemma path_join_plain:
  assumes "list_all valid_name names" "names \<noteq> []" "valid_name n"
  shows "path_join (join_chr sep names) n = join_chr sep (names @ [n])"
proof -
  note j = join_valid_ends [OF assms(1,2)]
  note e = valid_name_ends [OF assms(3)]
  have sp: "splitdrive (join_chr sep names) = ([], join_chr sep names)"
    using j(4) by (rule splitdrive_no_colon)
  show ?thesis
    using j(1,3) assms(2)
    by (simp add: path_join_relative [OF e(4) e(1) e(2)] sp join_chr_append)
qed

lemma foldl_path_join:
  "list_all valid_name (x # xs) \<Longrightarrow> foldl path_join x xs = join_chr sep (x # xs)"
proof (induction xs rule: rev_induct)
  case Nil
  show ?case by simp
next
  case (snoc n xs)
  have "foldl path_join x xs = join_chr sep (x # xs)"
    using snoc by simp
  moreover have "path_join (join_chr sep (x # xs)) n = join_chr sep ((x # xs) @ [n])"
    using snoc.prems by (intro path_join_plain) simp_all
  ultimately show ?case by simp
qed

lemma relpath_from_drive_root:
  assumes "valid_drive d" "list_all valid_name names" "names \<noteq> []"
    and "ap (winpath d names) = winpath d names" "ap (d @ [sep]) = d @ [sep]"
  shows "relpath ap (winpath d names) (d @ [sep]) = Inr (join_chr sep names)"
proof -
  have s1: "splitdrive (d @ [sep]) = (d, [sep])"
    using assms(1) by (rule splitdrive_drive)
  have s2: "splitdrive (winpath d names) = (d, sep # join_chr sep names)"
    using assms(1) by (rule splitdrive_winpath)
  have v: "\<forall>x \<in> set names. sep \<notin> set x \<and> x \<noteq> []"
    using assms(2) by (auto simp: list_all_iff valid_name_def)
  then have "split_chr sep (join_chr sep names) = names"
    using assms(3) by (intro split_join) auto
  moreover have "filter (\<lambda>x. x \<noteq> []) names = names"
    using v by (intro filter_True) auto
  ultimately have pl: "filter (\<lambda>x. x \<noteq> []) (split_chr sep (sep # join_chr sep names)) = names"
    by simp
  obtain x xs where n: "names = x # xs"
    using assms(3) by (cases names) auto
  have "foldl path_join x xs = join_chr sep names"
    using assms(2) unfolding n by (rule foldl_path_join)
  then have rel: "(case names of [] \<Rightarrow> Inr curdir | y # ys \<Rightarrow> Inr (foldl path_join y ys))
                    = (Inr (join_chr sep names) :: py_error + string)"
    by (simp add: n)
  have sl: "filter (\<lambda>x. x \<noteq> []) (split_chr sep [sep]) = []"
    by simp
  show ?thesis
    unfolding relpath_def assms(4,5) s1 s2 Let_def prod.case pl sl
    using rel by simp
qed

lemma SAFE_QUARANTINE_DIR_winpath:
  "SAFE_QUARANTINE_DIR = winpath ''C:'' [''FilePurger'', ''Quarantine'']"
  by code_simp

lemma safe_destination:
  assumes "valid_drive d" "list_all valid_name names" "names \<noteq> []"
    and "ap (winpath d names) = winpath d names" "ap (d @ [sep]) = d @ [sep]"
  shows "map_sum id (path_join SAFE_QUARANTINE_DIR) (relpath ap (winpath d names) (d @ [sep]))
           = Inr (winpath ''C:'' ([''FilePurger'', ''Quarantine''] @ names))"
proof -
  have c: "valid_drive ''C:''" "list_all valid_name [''FilePurger'', ''Quarantine'']"
    by code_simp+
  show ?thesis
    using path_join_winpath [OF c assms(2,3)]
    by (simp add: relpath_from_drive_root [OF assms] SAFE_QUARANTINE_DIR_winpath
             del: join_chr.simps)
qed

subsection \<open>Where a quarantined file goes\<close>

text \<open>
  C4, as amended.  For every absolute source path \<open>X:\\n1\\...\\nk\<close> of valid names and a
  hash function giving 64 hexadecimal digits: in \<open>auto_purge.py\<close>,
  \<open>build_quarantine_dest\<close> returns quarantine root / drive letter / parent directories /
  (stem + \<open>__\<close> + digest + extension), where the digest is the first 8 hexadecimal
  characters of the hash of the whole source path string and stem + extension is the file
  name; the destination is a function of the root, the source path and the hash function
  only.  In \<open>safe_purge.py\<close> the destination is the quarantine directory joined with the
  path relative to the drive root: neither a volume tag nor a digest.
\<close>

theorem quarantine_destination_layout:
  assumes "valid_drive d" "list_all valid_name names" "names \<noteq> []"
    and "length (digest (winpath d names)) = 64" "set (digest (winpath d names)) \<subseteq> hexdigits"
    and "ap (winpath d names) = winpath d names" "ap (d @ [sep]) = d @ [sep]"
  shows "str_of (parse_path (winpath d names)) = winpath d names
         \<and> build_quarantine_dest digest q (parse_path (winpath d names))
             = Inr (q\<lparr>p_parts := p_parts q @ [[hd d]] @ butlast names
                        @ [pp_stem (parse_path (winpath d names)) @ ''__''
                           @ short_hash digest (winpath d names)
                           @ pp_suffix (parse_path (winpath d names))]\<rparr>)
         \<and> pp_stem (parse_path (winpath d names)) @ pp_suffix (parse_path (winpath d names))
             = last names
         \<and> length (short_hash digest (winpath d names)) = 8
         \<and> set (short_hash digest (winpath d names)) \<subseteq> hexdigits
         \<and> map_sum id (path_join SAFE_QUARANTINE_DIR) (relpath ap (winpath d names) (d @ [sep]))
             = Inr (winpath ''C:'' ([''FilePurger'', ''Quarantine''] @ names))"
proof (intro conjI)
  let ?src = "parse_path (winpath d names)"
  have src: "?src = \<lparr>p_drv = d, p_root = [sep], p_parts = names\<rparr>"
    using assms(1,2) by (rule parse_winpath)
  show str: "str_of ?src = winpath d names"
    unfolding src by (simp add: str_of_def winpath_def)
  from assms(1) obtain a where a: "d = [a, colon]" "is_letter a" by (rule valid_driveE)
  have "a \<noteq> colon" using a(2) by (rule letter_not_special)
  then have tag: "volume_tag ?src = [hd d]"
    unfolding src by (simp add: volume_tag_def a)
  have "build_quarantine_dest digest q ?src = Inr (quarantine_destination digest q ?src)"
    using assms(1,2,5) str by (intro build_quarantine_dest_rooted) (simp_all add: src)
  then show "build_quarantine_dest digest q ?src
               = Inr (q\<lparr>p_parts := p_parts q @ [[hd d]] @ butlast names
                          @ [pp_stem ?src @ ''__'' @ short_hash digest (winpath d names)
                             @ pp_suffix ?src]\<rparr>)"
    using tag by (simp add: quarantine_destination_def short_hash_def src str [unfolded src])
  show "pp_stem ?src @ pp_suffix ?src = last names"
    using assms(3) by (simp add: stem_suffix pp_name_def src)
  show "length (short_hash digest (winpath d names)) = 8"
    using assms(4) by (simp add: short_hash_def)
  show "set (short_hash digest (winpath d names)) \<subseteq> hexdigits"
    using assms(5) by (auto simp: short_hash_def dest: in_set_takeD)
  show "map_sum id (path_join SAFE_QUARANTINE_DIR) (relpath ap (winpath d names) (d @ [sep]))
          = Inr (winpath ''C:'' ([''FilePurger'', ''Quarantine''] @ names))"
    using assms(1,2,3,6,7) by (rule safe_destination)
qed

text \<open>
  C4, witness: \<open>C:\\Users\\Bob\\report.pdf\<close> goes to
  \<open>C:\\FilePurger\\Quarantine\\C\\Users\\Bob\\report__01234567.pdf\<close> in \<open>auto_purge.py\<close> and
  to \<open>C:\\FilePurger\\Quarantine\\Users\\Bob\\report.pdf\<close> in \<open>safe_purge.py\<close>.
\<close>

theorem quarantine_destination_layout_witness:
  "build_quarantine_dest demo_sha demo_quarantine
       (parse_path (winpath ''C:'' [''Users'', ''Bob'', ''report.pdf'']))
     = Inr \<lparr>p_drv = ''C:'', p_root = [sep],
            p_parts = [''FilePurger'', ''Quarantine'', ''C'', ''Users'', ''Bob'',
                       ''report__01234567.pdf'']\<rparr>
   \<and> map_sum id (path_join SAFE_QUARANTINE_DIR)
         (relpath (\<lambda>p. p) (winpath ''C:'' [''Users'', ''Bob'', ''report.pdf'']) (''C:'' @ [sep]))
       = Inr (winpath ''C:'' [''FilePurger'', ''Quarantine'', ''Users'', ''Bob'', ''report.pdf''])"
proof -
  have h: "valid_drive ''C:''" "list_all valid_name [''Users'', ''Bob'', ''report.pdf'']"
    "[''Users'', ''Bob'', ''report.pdf''] \<noteq> []"
    "length (demo_sha (winpath ''C:'' [''Users'', ''Bob'', ''report.pdf''])) = 64"
    "set (demo_sha (winpath ''C:'' [''Users'', ''Bob'', ''report.pdf''])) \<subseteq> hexdigits"
    by code_simp+
  have e: "pp_stem (parse_path (winpath ''C:'' [''Users'', ''Bob'', ''report.pdf''])) = ''report''"
    "pp_suffix (parse_path (winpath ''C:'' [''Users'', ''Bob'', ''report.pdf''])) = ''.pdf''"
    "short_hash demo_sha (winpath ''C:'' [''Users'', ''Bob'', ''report.pdf'']) = ''01234567''"
    by code_simp+
  note t = quarantine_destination_layout [where ap = "\<lambda>p. p" and digest = demo_sha
             and q = demo_quarantine, OF h refl refl]
  have a: "build_quarantine_dest demo_sha demo_quarantine
       (parse_path (winpath ''C:'' [''Users'', ''Bob'', ''report.pdf'']))
     = Inr \<lparr>p_drv = ''C:'', p_root = [sep],
            p_parts = [''FilePurger'', ''Quarantine'', ''C'', ''Users'', ''Bob'',
                       ''report__01234567.pdf'']\<rparr>"
    using t by (simp add: e demo_quarantine_def)
  have b: "map_sum id (path_join SAFE_QUARANTINE_DIR)
         (relpath (\<lambda>p. p) (winpath ''C:'' [''Users'', ''Bob'', ''report.pdf'']) (''C:'' @ [sep]))
       = Inr (winpath ''C:'' [''FilePurger'', ''Quarantine'', ''Users'', ''Bob'', ''report.pdf''])"
    using t by simp
  show ?thesis using a b by blast
qed

text \<open>
  C4, counterexample to the claim as stated: \<open>purge_files\<close> moves \<open>C:\\old.PDF\<close> to
  \<open>C:\\FilePurger\\Quarantine\\old.PDF\<close>, which is not the destination with volume tag
  and digest.
\<close>

theorem purge_files_destination_has_no_digest:
  "new_events demo_world
     (purge_file demo_env 1000000 [''.pdf''] 1 False demo_drive demo_drive demo_world
        demo_old_file)
     = [MATCH (winpath ''C:'' [''old.PDF'']) 11,
        MOVE (winpath ''C:'' [''old.PDF''])
             (winpath ''C:'' [''FilePurger'', ''Quarantine'', ''old.PDF'']) 11]
   \<and> Inr (parse_path (winpath ''C:'' [''FilePurger'', ''Quarantine'', ''old.PDF'']))
       \<noteq> build_quarantine_dest demo_sha (parse_path SAFE_QUARANTINE_DIR)
            (parse_path (winpath ''C:'' [''old.PDF'']))"
  by code_simp

text \<open>
  C9, as amended.  For a source path of valid names, with a drive letter or without a
  drive: when the path has no root (a relative path), \<open>build_quarantine_dest\<close> raises
  \<open>ValueError\<close> and returns no destination; when it has a root but no drive, it does not
  fail and returns the destination under the volume tag \<open>ROOT\<close>.
\<close>

theorem unrooted_source_is_rejected:
  assumes "p_drv src = [] \<or> valid_drive (p_drv src)" "list_all valid_name (p_parts src)"
    and "set (digest (str_of src)) \<subseteq> hexdigits"
  shows "(p_root src = [] \<longrightarrow> build_quarantine_dest digest q src = Inl ValueError)
         \<and> (p_root src = [sep] \<and> p_drv src = [] \<longrightarrow>
              build_quarantine_dest digest q src
                = Inr (q\<lparr>p_parts := p_parts q @ [''ROOT''] @ butlast (p_parts src)
                           @ [pp_stem src @ ''__'' @ short_hash digest (str_of src)
                              @ pp_suffix src]\<rparr>))"
proof (intro conjI impI)
  assume "p_root src = []"
  with assms(1) show "build_quarantine_dest digest q src = Inl ValueError"
    using assms(2) by (rule build_quarantine_dest_unrooted)
next
  assume a: "p_root src = [sep] \<and> p_drv src = []"
  then have "build_quarantine_dest digest q src = Inr (quarantine_destination digest q src)"
    using assms by (intro build_quarantine_dest_rooted) simp_all
  then show "build_quarantine_dest digest q src
               = Inr (q\<lparr>p_parts := p_parts q @ [''ROOT''] @ butlast (p_parts src)
                          @ [pp_stem src @ ''__'' @ short_hash digest (str_of src)
                             @ pp_suffix src]\<rparr>)"
    using a by (simp add: quarantine_destination_def volume_tag_def short_hash_def)
qed

text \<open>
  C9, witness: the relative paths \<open>Users\\report.pdf\<close> and \<open>C:report.pdf\<close> are
  rejected.
\<close>

theorem unrooted_source_is_rejected_witness:
  "build_quarantine_dest demo_sha demo_quarantine
      \<lparr>p_drv = [], p_root = [], p_parts = [''Users'', ''report.pdf'']\<rparr> = Inl ValueError
   \<and> build_quarantine_dest demo_sha demo_quarantine
        \<lparr>p_drv = ''C:'', p_root = [], p_parts = [''report.pdf'']\<rparr> = Inl ValueError"
proof -
  have v: "valid_drive ''C:''" "list_all valid_name [''Users'', ''report.pdf'']"
    "list_all valid_name [''report.pdf'']"
    by code_simp+
  have h: "set (demo_sha s) \<subseteq> hexdigits" for s
    by (simp add: demo_sha_def hexdigits_def)
  have a: "build_quarantine_dest demo_sha demo_quarantine
      \<lparr>p_drv = [], p_root = [], p_parts = [''Users'', ''report.pdf'']\<rparr> = Inl ValueError"
    using unrooted_source_is_rejected
            [where src = "\<lparr>p_drv = [], p_root = [], p_parts = [''Users'', ''report.pdf'']\<rparr>"
               and digest = demo_sha and q = demo_quarantine] v h
    by simp
  have b: "build_quarantine_dest demo_sha demo_quarantine
        \<lparr>p_drv = ''C:'', p_root = [], p_parts = [''report.pdf'']\<rparr> = Inl ValueError"
    using unrooted_source_is_rejected
            [where src = "\<lparr>p_drv = ''C:'', p_root = [], p_parts = [''report.pdf'']\<rparr>"
               and digest = demo_sha and q = demo_quarantine] v h
    by simp
  show ?thesis using a b by blast
qed

text \<open>
  C9, counterexample to the claim as stated: \<open>\\Users\\report.pdf\<close> has no volume
  component, and \<open>build_quarantine_dest\<close> returns a destination for it.
\<close>

theorem source_without_volume_gets_ROOT:
  "parse_path ([sep] @ ''Users'' @ [sep] @ ''report.pdf'')
     = \<lparr>p_drv = [], p_root = [sep], p_parts = [''Users'', ''report.pdf'']\<rparr>
   \<and> build_quarantine_dest demo_sha demo_quarantine
        (parse_path ([sep] @ ''Users'' @ [sep] @ ''report.pdf''))
       = Inr \<lparr>p_drv = ''C:'', p_root = [sep],
              p_parts = [''FilePurger'', ''Quarantine'', ''ROOT'', ''Users'',
                         ''report__01234567.pdf'']\<rparr>"
  by code_simp

subsection \<open>Excluded directories\<close>

text \<open>
  C3, the code at the failing input: with the drive root \<open>C:\\\<close> in the exclude list,
  \<open>should_exclude_dir\<close> holds of \<open>C:\\\<close>, the subdirectory \<open>Users\<close> is pruned, but
  \<open>run_scan\<close> still logs the root as scanned and emits \<open>MATCH\<close> and \<open>SKIP\<close> for the files
  in it: the walk tests the subdirectories of each directory it visits and never the
  directory it starts from.
\<close>

theorem excluded_drive_root_is_scanned:
  "should_exclude_dir (os_abspath demo_env) demo_drive
     (EXCLUDE_DIRS (scan_setup demo_env demo_cfg_root [''.pdf'']))
   \<and> events (fst (run_scan demo_env demo_cfg_root demo_world))
       = [SCAN demo_drive, MATCH (demo_drive @ ''old.PDF'') 11,
          SKIP (demo_drive @ ''new.pdf'') 1]"
  by code_simp

lemma emits_refl: "emits P w w"
  by (simp add: emits_def)

lemma emits_trans:
  assumes "emits P a b" "emits P b c"
  shows "emits P a c"
proof -
  have p1: "prefix (events a) (events b)" and p2: "prefix (events b) (events c)"
    using assms by (simp_all add: emits_def)
  have "new_events a c = new_events a b @ new_events b c"
    using p1 p2 by (rule new_events_append)
  moreover have "prefix (events a) (events c)"
    using p1 p2 by (rule prefix_order.trans)
  ultimately show ?thesis
    using assms by (simp add: emits_def)
qed

lemma emits_info: "P e \<Longrightarrow> emits P w (info e w)"
  by (simp add: emits_def)

lemma emits_mono: "emits P w w' \<Longrightarrow> (\<And>e. P e \<Longrightarrow> Q e) \<Longrightarrow> emits Q w w'"
  by (auto simp: emits_def list_all_iff)

lemma scan_file_emits:
  "emits (\<lambda>e. per_file e \<and> ev_path e = path_join r (fname f)) w (scan_file env cfg loc r w f)"
  by (simp add: scan_file_def Let_def emits_def
           split: stat_res.splits sum.splits move_res.splits)

lemma below_unexcluded_lift:
  assumes "below_unexcluded ap excl d (ps @ [n]) e" "valid_name n"
    and "\<not> should_exclude_dir ap (winpath d (ps @ [n])) excl"
  shows "below_unexcluded ap excl d ps e"
proof -
  let ?k = "if per_file e then 1 else 0 :: nat"
  from assms(1) obtain ms where ms: "ev_path e = winpath d ((ps @ [n]) @ ms)"
    "list_all valid_name ms" "per_file e \<longrightarrow> ms \<noteq> []"
    "\<forall>i. 1 \<le> i \<and> i + ?k \<le> length ms \<longrightarrow>
         \<not> should_exclude_dir ap (winpath d ((ps @ [n]) @ take i ms)) excl"
    unfolding below_unexcluded_def by blast
  have "\<not> should_exclude_dir ap (winpath d (ps @ take i (n # ms))) excl"
    if i: "1 \<le> i \<and> i + ?k \<le> length (n # ms)" for i
  proof (cases i)
    case 0
    then show ?thesis using i by simp
  next
    case (Suc j)
    show ?thesis
    proof (cases j)
      case 0
      then show ?thesis using Suc assms(3) by simp
    next
      case (Suc j')
      then have "1 \<le> j \<and> j + ?k \<le> length ms"
        using i \<open>i = Suc j\<close> by simp
      then have "\<not> should_exclude_dir ap (winpath d ((ps @ [n]) @ take j ms)) excl"
        using ms(4) by blast
      then show ?thesis using \<open>i = Suc j\<close> by simp
    qed
  qed
  then show ?thesis
    unfolding below_unexcluded_def
    using ms(1,2,3) assms(2)
    by (intro exI [of _ "n # ms"]) simp
qed

lemma walk_emits_below_unexcluded:
  assumes "valid_drive d"
  shows "list_all valid_name ps \<Longrightarrow> valid_tree t \<Longrightarrow> r = winpath d ps \<Longrightarrow>
         emits (below_unexcluded (os_abspath env) (EXCLUDE_DIRS loc) d ps) w
               (walk env cfg loc r t w)"
proof (induction env cfg loc r t w arbitrary: ps rule: walk.induct)
  case (1 env cfg loc rootdir files dirs w)
  let ?ap = "os_abspath env" and ?ex = "EXCLUDE_DIRS loc"
  let ?B = "below_unexcluded ?ap ?ex d ps"
  let ?kept = "filter (\<lambda>(n, t). \<not> should_exclude_dir ?ap (path_join rootdir n) ?ex) dirs"
  let ?w1 = "info (SCAN rootdir) w"
  let ?w2 = "foldl (scan_file env cfg loc rootdir) ?w1 files"
  have r: "rootdir = winpath d ps" by (rule "1.prems")
  have vf: "\<forall>f \<in> set files. valid_name (fname f)"
    and vd: "\<forall>(n, t) \<in> set dirs. valid_name n \<and> valid_tree t"
    using "1.prems"(2) by (auto simp: list_all_iff)
  have "?B (SCAN rootdir)"
    unfolding below_unexcluded_def by (intro exI [of _ "[]"]) (simp add: r)
  then have a: "emits ?B w ?w1" by (rule emits_info)
  have b: "emits ?B ?w1 ?w2"
  proof (rule foldl_rel [where R = "emits ?B"])
    fix w' f
    assume f: "f \<in> set files"
    then have v: "valid_name (fname f)" using vf by blast
    have pj: "path_join rootdir (fname f) = winpath d (ps @ [fname f])"
      unfolding r using assms "1.prems"(1) v by (rule path_join_winpath_name)
    have "?B e" if "per_file e \<and> ev_path e = path_join rootdir (fname f)" for e
      unfolding below_unexcluded_def
      using that v by (intro exI [of _ "[fname f]"]) (simp add: pj)
    then show "emits ?B w' (scan_file env cfg loc rootdir w' f)"
      using scan_file_emits emits_mono by blast
  qed (auto intro: emits_refl emits_trans)
  have c: "emits ?B ?w2 (foldl (\<lambda>w' (n, t). walk env cfg loc (path_join rootdir n) t w') ?w2 ?kept)"
  proof (rule foldl_rel [where R = "emits ?B"])
    fix w' x
    assume x: "x \<in> set ?kept"
    obtain n t where nt: "x = (n, t)" by (cases x)
    have v: "valid_name n" "valid_tree t"
      using x nt vd by auto
    have pj: "path_join rootdir n = winpath d (ps @ [n])"
      unfolding r using assms "1.prems"(1) v(1) by (rule path_join_winpath_name)
    have ne: "\<not> should_exclude_dir ?ap (winpath d (ps @ [n])) ?ex"
      using x nt pj by simp
    have "emits (below_unexcluded ?ap ?ex d (ps @ [n])) w'
            (walk env cfg loc (path_join rootdir n) t w')"
      using "1.IH" [OF refl refl refl x nt [symmetric] _ v(2) pj] "1.prems"(1) v(1) by simp
    then have "emits ?B w' (walk env cfg loc (path_join rootdir n) t w')"
      using below_unexcluded_lift [OF _ v(1) ne] emits_mono by blast
    then show "emits ?B w' (case x of (n, t) \<Rightarrow> walk env cfg loc (path_join rootdir n) t w')"
      by (simp add: nt)
  qed (auto intro: emits_refl emits_trans)
  show ?case
    using emits_trans [OF emits_trans [OF a b] c] by (simp add: Let_def)
qed

text \<open>
  Below the directory the walk starts from, the claim holds: when a directory \<open>d:\\qs\<close>
  strictly below the start is excluded, no directory at or under it is logged as
  scanned, and no event is emitted for a file under it.
\<close>

lemma walk_spares_excluded_subtrees:
  assumes d: "valid_drive d" and ps: "list_all valid_name ps" and t: "valid_tree t"
    and qs: "list_all valid_name qs"
    and ap: "\<And>ns. list_all valid_name ns \<Longrightarrow> os_abspath env (winpath d ns) = winpath d ns"
    and below: "strict_prefix ps qs"
    and excluded: "should_exclude_dir (os_abspath env) (winpath d qs) (EXCLUDE_DIRS loc)"
    and e: "e \<in> set (new_events w (walk env cfg loc (winpath d ps) t w))"
  shows "\<not> is_under (os_abspath env) (ev_path e) (winpath d qs)
         \<or> (per_file e \<and> ev_path e = winpath d qs)"
proof -
  let ?ap = "os_abspath env"
  let ?k = "if per_file e then 1 else 0 :: nat"
  have "emits (below_unexcluded ?ap (EXCLUDE_DIRS loc) d ps) w (walk env cfg loc (winpath d ps) t w)"
    using d ps t refl by (rule walk_emits_below_unexcluded)
  then have "below_unexcluded ?ap (EXCLUDE_DIRS loc) d ps e"
    using e by (simp add: emits_def list_all_iff)
  then obtain ms where ms: "ev_path e = winpath d (ps @ ms)" "list_all valid_name ms"
    "\<forall>i. 1 \<le> i \<and> i + ?k \<le> length ms \<longrightarrow>
         \<not> should_exclude_dir ?ap (winpath d (ps @ take i ms)) (EXCLUDE_DIRS loc)"
    unfolding below_unexcluded_def by blast
  have v: "list_all valid_name (ps @ ms)"
    using ps ms(2) by simp
  have under: "is_under ?ap (winpath d (ps @ ms)) (winpath d qs) \<longleftrightarrow> prefix qs (ps @ ms)"
    using is_under_winpath [OF d d v qs ap [OF v] ap [OF qs]] by simp
  show ?thesis
  proof (cases "prefix qs (ps @ ms)")
    case False
    then show ?thesis using under ms(1) by simp
  next
    case True
    from below obtain qs' where q: "qs = ps @ qs'" "qs' \<noteq> []"
      by (auto simp: strict_prefix_def prefix_def)
    from True have "prefix qs' ms" by (simp add: q)
    then have tk: "qs' = take (length qs') ms" and le: "length qs' \<le> length ms"
      by (auto simp: prefix_def)
    have one: "1 \<le> length qs'"
      using q(2) by (cases qs') auto
    have ex: "should_exclude_dir ?ap (winpath d (ps @ take (length qs') ms)) (EXCLUDE_DIRS loc)"
      using excluded tk by (simp add: q(1))
    have "\<not> (length qs' + ?k \<le> length ms)"
      using ms(3) one ex by blast
    then have "per_file e" "length qs' = length ms"
      using le by (auto split: if_splits)
    then have "per_file e \<and> ev_path e = winpath d qs"
      using tk by (simp add: ms(1) q(1))
    then show ?thesis by simp
  qed
qed

text \<open>
  \<open>purge_files\<close> tests every directory it visits, the drive root included, and leaves an
  excluded one without an event and without going down.
\<close>

lemma purge_walk_skips_excluded:
  "is_excluded (os_abspath env) r = Inr True \<Longrightarrow>
     purge_walk env now exts rd dr drive r t w = Inr w"
  by (cases t) simp

end
